theory Spec2Isabelle
  imports Complex_Main
begin

section \<open>Data model of \<open>maze-generator.ts\<close>\<close>

text \<open>
  The embedding follows \<open>src/maze-generator.ts\<close>. JavaScript numbers that hold grid
  coordinates and the seed counter are integers (\<open>int\<close>); world coordinates and the values
  of the pseudo random stream are \<open>real\<close> (double arithmetic is idealised to exact
  arithmetic). \<open>Math.sin\<close> is a parameter \<open>msin\<close> of every function that draws from the
  seeded stream, and \<open>Math.random\<close> is a parameter \<open>mrandom\<close> (the value of the k-th call).
\<close>

definition MAZE_SIZE :: int where
  "MAZE_SIZE = 50"

definition PATH_WIDTH :: int where
  "PATH_WIDTH = 4"

definition PLATFORM_DEPTH :: int where
  "PLATFORM_DEPTH = 10"

definition FIXED_SEED :: int where
  "FIXED_SEED = 12345"

text \<open>\<open>interface Cell\<close>: the fields \<open>x\<close>, \<open>y\<close>, \<open>visited\<close> and the four wall flags.\<close>

record wallset =
  w_top :: bool
  w_right :: bool
  w_bottom :: bool
  w_left :: bool

record cell =
  cell_x :: int
  cell_y :: int
  visited :: bool
  walls :: wallset

datatype WallDirection = Top | Right | Bottom | Left

record Direction =
  dir_x :: int
  dir_y :: int
  wall :: WallDirection
  opposite :: WallDirection

definition DIRECTIONS :: "Direction list" where
  "DIRECTIONS =
    [\<lparr>dir_x = 0, dir_y = -1, wall = Top, opposite = Bottom\<rparr>,
     \<lparr>dir_x = 1, dir_y = 0, wall = Right, opposite = Left\<rparr>,
     \<lparr>dir_x = 0, dir_y = 1, wall = Bottom, opposite = Top\<rparr>,
     \<lparr>dir_x = -1, dir_y = 0, wall = Left, opposite = Right\<rparr>]"

record vec3 =
  px :: real
  py :: real
  pz :: real

text \<open>
  The fields of \<open>class MazeGenerator\<close> together with the module-level counter
  \<open>currentSeed\<close>. \<open>grid\<close> is indexed \<open>grid[y][x]\<close>.
\<close>

record maze =
  grid :: "cell list list"
  entrance :: "int \<times> int"
  exit :: "int \<times> int"
  entranceWorldPosition :: vec3
  currentSeed :: int

subsection \<open>Grid access\<close>

text \<open>\<open>this.grid[y]?.[x]\<close>: \<open>undefined\<close> (here \<open>None\<close>) outside the arrays.\<close>

definition cellAt :: "cell list list \<Rightarrow> int \<Rightarrow> int \<Rightarrow> cell option" where
  "cellAt g x y =
    (if 0 \<le> y \<and> y < int (length g) then
       (if 0 \<le> x \<and> x < int (length (g ! nat y)) then Some (g ! nat y ! nat x) else None)
     else None)"

text \<open>In-place mutation of the cell object stored at \<open>grid[y][x]\<close>.\<close>

definition updCell :: "cell list list \<Rightarrow> int \<Rightarrow> int \<Rightarrow> (cell \<Rightarrow> cell) \<Rightarrow> cell list list" where
  "updCell g x y f = g[nat y := (g ! nat y)[nat x := f (g ! nat y ! nat x)]]"

text \<open>\<open>cell.walls[w] = false\<close> and \<open>cell.visited = true\<close>.\<close>

fun removeWall :: "WallDirection \<Rightarrow> cell \<Rightarrow> cell" where
  "removeWall Top c = c\<lparr>walls := (walls c)\<lparr>w_top := False\<rparr>\<rparr>"
| "removeWall Right c = c\<lparr>walls := (walls c)\<lparr>w_right := False\<rparr>\<rparr>"
| "removeWall Bottom c = c\<lparr>walls := (walls c)\<lparr>w_bottom := False\<rparr>\<rparr>"
| "removeWall Left c = c\<lparr>walls := (walls c)\<lparr>w_left := False\<rparr>\<rparr>"

fun hasWall :: "WallDirection \<Rightarrow> cell \<Rightarrow> bool" where
  "hasWall Top c = w_top (walls c)"
| "hasWall Right c = w_right (walls c)"
| "hasWall Bottom c = w_bottom (walls c)"
| "hasWall Left c = w_left (walls c)"

definition markVisited :: "cell \<Rightarrow> cell" where
  "markVisited c = c\<lparr>visited := True\<rparr>"

definition isValidCell :: "int \<Rightarrow> int \<Rightarrow> bool" where
  "isValidCell x y = (x \<ge> 0 \<and> x < MAZE_SIZE \<and> y \<ge> 0 \<and> y < MAZE_SIZE)"

definition initializeGrid :: "cell list list" where
  "initializeGrid =
    map (\<lambda>y. map (\<lambda>x. \<lparr>cell_x = int x, cell_y = int y, visited = False,
                         walls = \<lparr>w_top = True, w_right = True, w_bottom = True, w_left = True\<rparr>\<rparr>)
                  [0..<nat MAZE_SIZE])
        [0..<nat MAZE_SIZE]"

text \<open>The constructor: \<open>initializeGrid()\<close>, the field initialisers, and the seed reset.\<close>

definition newMazeGenerator :: maze where
  "newMazeGenerator =
    \<lparr>grid = initializeGrid, entrance = (0, 0), exit = (0, 0),
     entranceWorldPosition = \<lparr>px = 0, py = 1, pz = 0\<rparr>, currentSeed = FIXED_SEED\<rparr>"

subsection \<open>The seeded stream\<close>

text \<open>
  \<open>seedRandom\<close>: \<open>x = Math.sin(currentSeed++) * 10000; return x - Math.floor(x)\<close>.
  The result is the drawn value and the state with the counter advanced.
\<close>

definition seedRandom :: "(real \<Rightarrow> real) \<Rightarrow> maze \<Rightarrow> real \<times> maze" where
  "seedRandom msin s =
    (let x = msin (of_int (currentSeed s)) * 10000
     in (x - of_int \<lfloor>x\<rfloor>, s\<lparr>currentSeed := currentSeed s + 1\<rparr>))"

subsection \<open>Queries\<close>

definition isWalkableCell :: "maze \<Rightarrow> int \<Rightarrow> int \<Rightarrow> bool" where
  "isWalkableCell s gridX gridZ =
    (case cellAt (grid s) gridX gridZ of None \<Rightarrow> False | Some c \<Rightarrow> visited c)"

definition isWalkablePath :: "maze \<Rightarrow> real \<Rightarrow> real \<Rightarrow> real \<Rightarrow> bool" where
  "isWalkablePath s worldX worldY worldZ =
    (if worldZ < 0 \<or> worldZ \<ge> of_int (MAZE_SIZE * PATH_WIDTH) then True
     else
       (let gridX = \<lfloor>worldX / of_int PATH_WIDTH\<rfloor>;
            gridZ = \<lfloor>worldZ / of_int PATH_WIDTH\<rfloor>
        in isValidCell gridX gridZ \<and> isWalkableCell s gridX gridZ))"

definition getCellCenter :: "maze \<Rightarrow> int \<Rightarrow> int \<Rightarrow> vec3" where
  "getCellCenter s gridX gridZ =
    \<lparr>px = of_int (gridX * PATH_WIDTH) + of_int PATH_WIDTH / 2,
     py = py (entranceWorldPosition s) + 1,
     pz = of_int (gridZ * PATH_WIDTH) + of_int PATH_WIDTH / 2\<rparr>"

text \<open>The nested loops \<open>for z\<close>, \<open>for x\<close> of \<open>getAllWalkableCells\<close>; a result is \<open>(x, z)\<close>.\<close>

definition scanOrder :: "(int \<times> int) list" where
  "scanOrder = concat (map (\<lambda>z. map (\<lambda>x. (int x, int z)) [0..<nat MAZE_SIZE]) [0..<nat MAZE_SIZE])"

definition getAllWalkableCells :: "maze \<Rightarrow> (int \<times> int) list" where
  "getAllWalkableCells s = filter (\<lambda>(x, z). isWalkableCell s x z) scanOrder"

definition getEntrance :: "maze \<Rightarrow> vec3 \<times> maze" where
  "getEntrance s =
    (let s' = s\<lparr>entranceWorldPosition :=
                 \<lparr>px = of_int (fst (entrance s) * PATH_WIDTH) + of_int PATH_WIDTH / 2,
                  py = 1,
                  pz = - of_int PLATFORM_DEPTH / 2\<rparr>\<rparr>
     in (entranceWorldPosition s', s'))"

definition getExit :: "maze \<Rightarrow> vec3" where
  "getExit s =
    \<lparr>px = of_int (fst (exit s) * PATH_WIDTH) + of_int PATH_WIDTH / 2,
     py = 1,
     pz = of_int (MAZE_SIZE * PATH_WIDTH) + of_int PLATFORM_DEPTH / 2\<rparr>"

text \<open>
  \<open>getRandomWalkablePosition(excludeRadius)\<close>; \<open>null\<close> is \<open>None\<close>. The stream is read only
  on the path that reaches the line of \<open>randomIndex\<close>.
\<close>

definition manhattan :: "int \<times> int \<Rightarrow> int \<times> int \<Rightarrow> int" where
  "manhattan a b = \<bar>fst a - fst b\<bar> + \<bar>snd a - snd b\<bar>"

definition getRandomWalkablePosition :: "(real \<Rightarrow> real) \<Rightarrow> real \<Rightarrow> maze \<Rightarrow> vec3 option \<times> maze" where
  "getRandomWalkablePosition msin excludeRadius s =
    (let walkableCells = getAllWalkableCells s in
     if length walkableCells = 0 then (None, s)
     else
       (let eligibleCells0 =
              (if excludeRadius > 0 then
                 filter (\<lambda>c. of_int (manhattan c (entrance s)) > excludeRadius
                            \<and> of_int (manhattan c (exit s)) > excludeRadius) walkableCells
               else walkableCells);
            eligibleCells = (if length eligibleCells0 = 0 then walkableCells else eligibleCells0)
        in if length eligibleCells = 0 then (None, s)
           else
             (let (r, s') = seedRandom msin s;
                  randomIndex = min \<lfloor>r * of_nat (length eligibleCells)\<rfloor> (int (length eligibleCells) - 1)
              in if 0 \<le> randomIndex \<and> randomIndex < int (length eligibleCells) then
                   (let (cx, cz) = eligibleCells ! nat randomIndex
                    in (Some (getCellCenter s' cx cz), s'))
                 else (None, s'))))"

text \<open>
  The state each public query leaves behind. The four queries whose bodies contain no
  assignment and no call of \<open>seedRandom\<close> leave the state they were given.
\<close>

datatype query =
    IsWalkablePath real real real
  | GetCellCenter int int
  | GetAllWalkableCells
  | GetRandomWalkablePosition real
  | GetEntrance
  | GetExit

fun stateAfter :: "(real \<Rightarrow> real) \<Rightarrow> query \<Rightarrow> maze \<Rightarrow> maze" where
  "stateAfter msin (IsWalkablePath wx wy wz) s = s"
| "stateAfter msin (GetCellCenter gx gz) s = s"
| "stateAfter msin GetAllWalkableCells s = s"
| "stateAfter msin (GetRandomWalkablePosition r) s = snd (getRandomWalkablePosition msin r s)"
| "stateAfter msin GetEntrance s = snd (getEntrance s)"
| "stateAfter msin GetExit s = s"

subsection \<open>Connectivity repair\<close>

text \<open>\<open>this.isValidCell(x, y) ? this.grid[y]?.[x] : null\<close>.\<close>

definition validCellAt :: "cell list list \<Rightarrow> int \<Rightarrow> int \<Rightarrow> cell option" where
  "validCellAt g x y = (if isValidCell x y then cellAt g x y else None)"

text \<open>
  The two assignments \<open>a.walls[w] = false; b.walls[w'] = false\<close> on the cells at
  \<open>(x, y)\<close> and \<open>(nx, ny)\<close>.
\<close>

definition removeWallPair ::
  "cell list list \<Rightarrow> int \<Rightarrow> int \<Rightarrow> WallDirection \<Rightarrow> int \<Rightarrow> int \<Rightarrow> WallDirection \<Rightarrow> cell list list" where
  "removeWallPair g x y w nx ny w' = updCell (updCell g x y (removeWall w)) nx ny (removeWall w')"

definition hasPathToExit :: "maze \<Rightarrow> bool" where
  "hasPathToExit s =
    (if isValidCell (fst (exit s)) (snd (exit s)) then
       (case cellAt (grid s) (fst (exit s)) (snd (exit s)) of
          None \<Rightarrow> False
        | Some exitCell \<Rightarrow> visited exitCell)
     else False)"

text \<open>
  The \<open>while\<close> loop of \<open>createPathToExit\<close>. Every \<open>break\<close> returns the current state;
  a step that moves goes on from the neighbouring cell.
\<close>

function createPath_loop :: "maze \<Rightarrow> int \<Rightarrow> int \<Rightarrow> maze" where
  "createPath_loop s currentX currentY =
    (if currentX \<noteq> fst (exit s) \<or> currentY \<noteq> snd (exit s) then
       (case validCellAt (grid s) currentX currentY of
          None \<Rightarrow> s
        | Some _ \<Rightarrow>
            (let g1 = updCell (grid s) currentX currentY markVisited;
                 xDiff = fst (exit s) - currentX;
                 yDiff = snd (exit s) - currentY
             in if \<bar>yDiff\<bar> > 0 then
                  (if yDiff > 0 then
                     (case validCellAt g1 currentX (currentY + 1) of
                        None \<Rightarrow> s\<lparr>grid := g1\<rparr>
                      | Some _ \<Rightarrow>
                          createPath_loop
                            (s\<lparr>grid := removeWallPair g1 currentX currentY Bottom currentX (currentY + 1) Top\<rparr>)
                            currentX (currentY + 1))
                   else
                     (case validCellAt g1 currentX (currentY - 1) of
                        None \<Rightarrow> s\<lparr>grid := g1\<rparr>
                      | Some _ \<Rightarrow>
                          createPath_loop
                            (s\<lparr>grid := removeWallPair g1 currentX currentY Top currentX (currentY - 1) Bottom\<rparr>)
                            currentX (currentY - 1)))
                else if \<bar>xDiff\<bar> > 0 then
                  (if xDiff > 0 then
                     (case validCellAt g1 (currentX + 1) currentY of
                        None \<Rightarrow> s\<lparr>grid := g1\<rparr>
                      | Some _ \<Rightarrow>
                          createPath_loop
                            (s\<lparr>grid := removeWallPair g1 currentX currentY Right (currentX + 1) currentY Left\<rparr>)
                            (currentX + 1) currentY)
                   else
                     (case validCellAt g1 (currentX - 1) currentY of
                        None \<Rightarrow> s\<lparr>grid := g1\<rparr>
                      | Some _ \<Rightarrow>
                          createPath_loop
                            (s\<lparr>grid := removeWallPair g1 currentX currentY Left (currentX - 1) currentY Right\<rparr>)
                            (currentX - 1) currentY))
                else s\<lparr>grid := g1\<rparr>))
     else s)"
  by pat_completeness auto
termination
  by (relation "measure (\<lambda>(s, cx, cy). nat (\<bar>fst (exit s) - cx\<bar> + \<bar>snd (exit s) - cy\<bar>))") auto

declare createPath_loop.simps [simp del]

definition createPathToExit :: "maze \<Rightarrow> int \<Rightarrow> int \<Rightarrow> maze" where
  "createPathToExit s x y =
    (let s' = createPath_loop s x y
     in case validCellAt (grid s') (fst (exit s')) (snd (exit s')) of
          None \<Rightarrow> s'
        | Some _ \<Rightarrow> s'\<lparr>grid := updCell (grid s') (fst (exit s')) (snd (exit s')) markVisited\<rparr>)"

text \<open>
  One pass of the body of the nested loops of \<open>connectToExit\<close> at \<open>(x, y)\<close>;
  \<open>closestCell\<close> is \<open>None\<close> or \<open>Some (x, y, distance)\<close>.
\<close>

definition closer :: "maze \<Rightarrow> int \<times> int \<Rightarrow> (int \<times> int \<times> int) option \<Rightarrow> (int \<times> int \<times> int) option" where
  "closer s p closestCell =
    (case validCellAt (grid s) (fst p) (snd p) of
       None \<Rightarrow> closestCell
     | Some c \<Rightarrow>
         if visited c then
           (let distance = \<bar>fst p - fst (exit s)\<bar> + \<bar>snd p - snd (exit s)\<bar>
            in case closestCell of
                 None \<Rightarrow> Some (fst p, snd p, distance)
               | Some (cx, cy, cd) \<Rightarrow> if distance < cd then Some (fst p, snd p, distance) else closestCell)
         else closestCell)"

definition findClosest :: "maze \<Rightarrow> (int \<times> int \<times> int) option" where
  "findClosest s = fold (closer s) scanOrder None"

definition connectToExit :: "maze \<Rightarrow> maze" where
  "connectToExit s =
    (case findClosest s of
       None \<Rightarrow> s
     | Some (cx, cy, cd) \<Rightarrow> createPathToExit s cx cy)"

text \<open>The check at the end of the body of the carving loop.\<close>

definition repairCheck :: "maze \<Rightarrow> (int \<times> int) list \<Rightarrow> maze" where
  "repairCheck s stack = (if length stack = 0 \<and> \<not> hasPathToExit s then connectToExit s else s)"

subsection \<open>Carving\<close>

text \<open>The \<open>for\<close> loop over \<open>DIRECTIONS\<close> that collects \<open>neighbors\<close> as \<open>(x, y, dirIndex)\<close>.\<close>

definition unvisitedNeighbors :: "cell list list \<Rightarrow> int \<Rightarrow> int \<Rightarrow> (int \<times> int \<times> nat) list" where
  "unvisitedNeighbors g x y =
    filter (\<lambda>(newX, newY, dirIndex).
              isValidCell newX newY \<and>
              (case cellAt g newX newY of None \<Rightarrow> False | Some neighborCell \<Rightarrow> \<not> visited neighborCell))
      (map (\<lambda>dirIndex. (x + dir_x (DIRECTIONS ! dirIndex), y + dir_y (DIRECTIONS ! dirIndex), dirIndex))
         [0..<length DIRECTIONS])"

text \<open>
  One pass of the body of the \<open>while\<close> loop of \<open>depthFirstSearch\<close>, entered with a non-empty
  stack. The stack is a list with its top at the head, so \<open>push\<close> is \<open>#\<close> and \<open>pop\<close> is \<open>tl\<close>.
  A \<open>continue\<close> returns the state it has reached (the seed counter already advanced) with the
  stack as it is, and skips the check at the end of the body: the two \<open>continue\<close>s for an
  undefined \<open>neighbor\<close> and for an undefined cell object are the two early results below. The
  guards \<open>if (!currentCell) break\<close> and \<open>if (!dir) continue\<close> have no branch here: the top of a
  non-empty stack is defined, and \<open>dirIndex\<close> is an index of \<open>DIRECTIONS\<close>.
\<close>

definition dfs_iter :: "(real \<Rightarrow> real) \<Rightarrow> maze \<Rightarrow> (int \<times> int) list \<Rightarrow> maze \<times> (int \<times> int) list" where
  "dfs_iter msin s stack =
    (let x = fst (hd stack);
         y = snd (hd stack);
         neighbors = unvisitedNeighbors (grid s) x y
     in if length neighbors > 0 then
          (let r = fst (seedRandom msin s);
               s1 = snd (seedRandom msin s);
               neighborIndex = \<lfloor>r * of_nat (length neighbors)\<rfloor>
           in if \<not> (0 \<le> neighborIndex \<and> neighborIndex < int (length neighbors)) then (s1, stack)
              else
                (let nx = fst (neighbors ! nat neighborIndex);
                     ny = fst (snd (neighbors ! nat neighborIndex));
                     dir = DIRECTIONS ! snd (snd (neighbors ! nat neighborIndex))
                 in if cellAt (grid s1) x y = None \<or> cellAt (grid s1) nx ny = None then (s1, stack)
                    else
                      (let g2 = removeWallPair (grid s1) x y (wall dir) nx ny (opposite dir);
                           g3 = updCell g2 nx ny markVisited;
                           stack' = (nx, ny) # stack
                       in (repairCheck (s1\<lparr>grid := g3\<rparr>) stack', stack'))))
        else
          (let stack' = tl stack in (repairCheck s stack', stack')))"

text \<open>
  The \<open>while\<close> loop. A \<open>continue\<close> leaves the stack as it is, so the loop is not total on
  arbitrary states; \<open>None\<close> is a run that does not return.
\<close>

partial_function (option) dfs_loop :: "(real \<Rightarrow> real) \<Rightarrow> maze \<Rightarrow> (int \<times> int) list \<Rightarrow> maze option" where
  "dfs_loop msin s stack =
    (if length stack > 0 then
       dfs_loop msin (fst (dfs_iter msin s stack)) (snd (dfs_iter msin s stack))
     else Some s)"

declare dfs_loop.simps [code]

definition depthFirstSearch :: "(real \<Rightarrow> real) \<Rightarrow> maze \<Rightarrow> int \<Rightarrow> int \<Rightarrow> maze option" where
  "depthFirstSearch msin s startX startY =
    (if \<not> isValidCell startX startY then Some s
     else
       (case cellAt (grid s) startX startY of
          None \<Rightarrow> Some s
        | Some _ \<Rightarrow>
            dfs_loop msin (s\<lparr>grid := updCell (grid s) startX startY markVisited\<rparr>) [(startX, startY)]))"

subsection \<open>Loop injection\<close>

definition connectionsToAdd :: int where
  "connectionsToAdd = \<lfloor>real_of_int (MAZE_SIZE * MAZE_SIZE) * (1 / 10)\<rfloor>"

text \<open>One pass of the body of the \<open>for\<close> loop of \<open>addExtraConnections\<close>.\<close>

definition addExtraConnections_iter :: "(real \<Rightarrow> real) \<Rightarrow> maze \<Rightarrow> maze" where
  "addExtraConnections_iter msin s =
    (let x = \<lfloor>fst (seedRandom msin s) * of_int MAZE_SIZE\<rfloor>;
         s1 = snd (seedRandom msin s);
         y = \<lfloor>fst (seedRandom msin s1) * of_int MAZE_SIZE\<rfloor>;
         s2 = snd (seedRandom msin s1)
     in if \<not> isValidCell x y then s2
        else
          (let dirIndex = \<lfloor>fst (seedRandom msin s2) * of_nat (length DIRECTIONS)\<rfloor>;
               s3 = snd (seedRandom msin s2)
           in if \<not> (0 \<le> dirIndex \<and> dirIndex < int (length DIRECTIONS)) then s3
              else
                (let dir = DIRECTIONS ! nat dirIndex;
                     nextX = x + dir_x dir;
                     nextY = y + dir_y dir
                 in if isValidCell nextX nextY then
                      (if cellAt (grid s3) x y \<noteq> None \<and> cellAt (grid s3) nextX nextY \<noteq> None then
                         s3\<lparr>grid := removeWallPair (grid s3) x y (wall dir) nextX nextY (opposite dir)\<rparr>
                       else s3)
                    else s3)))"

function addExtraConnections_loop :: "(real \<Rightarrow> real) \<Rightarrow> int \<Rightarrow> maze \<Rightarrow> maze" where
  "addExtraConnections_loop msin i s =
    (if i < connectionsToAdd then addExtraConnections_loop msin (i + 1) (addExtraConnections_iter msin s)
     else s)"
  by pat_completeness auto
termination
  by (relation "measure (\<lambda>(msin, i, s). nat (connectionsToAdd - i))") auto

declare addExtraConnections_loop.simps [simp del]

definition addExtraConnections :: "(real \<Rightarrow> real) \<Rightarrow> maze \<Rightarrow> maze" where
  "addExtraConnections msin s = addExtraConnections_loop msin 0 s"

subsection \<open>The pipeline\<close>

text \<open>
  \<open>generateMaze\<close>; \<open>None\<close> stands for a carving loop that does not return. \<open>openWall\<close> is the
  guarded assignment \<open>cell.walls.top = false\<close> at the entrance and \<open>cell.walls.bottom = false\<close> at
  the exit.
\<close>

definition openWall :: "maze \<Rightarrow> int \<Rightarrow> int \<Rightarrow> WallDirection \<Rightarrow> maze" where
  "openWall s cx cy w =
    (if cy \<ge> 0 \<and> cy < MAZE_SIZE \<and> cx \<ge> 0 \<and> cx < MAZE_SIZE then
       (case cellAt (grid s) cx cy of
          None \<Rightarrow> s
        | Some _ \<Rightarrow> s\<lparr>grid := updCell (grid s) cx cy (removeWall w)\<rparr>)
     else s)"

definition generateMaze :: "(real \<Rightarrow> real) \<Rightarrow> maze \<Rightarrow> maze option" where
  "generateMaze msin s =
    (let s1 = s\<lparr>currentSeed := FIXED_SEED\<rparr>;
         startX = MAZE_SIZE div 2;
         startY = 0;
         s2 = s1\<lparr>entrance := (startX, startY)\<rparr>;
         s3 = s2\<lparr>grid := initializeGrid\<rparr>;
         s4 = openWall s3 startX startY Top;
         exitX = MAZE_SIZE div 2;
         exitY = MAZE_SIZE - 1;
         s5 = s4\<lparr>exit := (exitX, exitY)\<rparr>
     in case depthFirstSearch msin s5 startX startY of
          None \<Rightarrow> None
        | Some s6 \<Rightarrow> Some (addExtraConnections msin (openWall s6 exitX exitY Bottom)))"

subsection \<open>\<open>addRandomPaths\<close>\<close>

text \<open>
  One pass of the body of the \<open>for\<close> loop of \<open>addRandomPaths\<close>; \<open>k\<close> counts the calls of
  \<open>Math.random\<close> made so far and \<open>mrandom k\<close> is the value of call \<open>k\<close>. \<open>removeIfPresent\<close> is
  \<open>const n = this.grid[y]?.[x]; if (n) n.walls[w] = false\<close>. The fourth branch writes
  \<open>cellLeft.walls.left\<close>, as the source does.
\<close>

definition removeIfPresent :: "cell list list \<Rightarrow> int \<Rightarrow> int \<Rightarrow> WallDirection \<Rightarrow> cell list list" where
  "removeIfPresent g x y w = (case cellAt g x y of None \<Rightarrow> g | Some _ \<Rightarrow> updCell g x y (removeWall w))"

definition addRandomPaths_iter :: "(nat \<Rightarrow> real) \<Rightarrow> maze \<times> nat \<Rightarrow> maze \<times> nat" where
  "addRandomPaths_iter mrandom sk =
    (let s = fst sk;
         k = snd sk;
         row = \<lfloor>mrandom k * of_int (MAZE_SIZE - 1)\<rfloor>;
         col = \<lfloor>mrandom (k + 1) * of_int (MAZE_SIZE - 1)\<rfloor>
     in case cellAt (grid s) col row of
          None \<Rightarrow> (s, k + 2)
        | Some _ \<Rightarrow>
            (let wallToRemove = \<lfloor>mrandom (k + 2) * 4\<rfloor>;
                 g = grid s
             in if wallToRemove = 0 \<and> row > 0 then
                  (s\<lparr>grid := removeIfPresent (updCell g col row (removeWall Top)) col (row - 1) Bottom\<rparr>, k + 3)
                else if wallToRemove = 1 \<and> col < MAZE_SIZE - 1 then
                  (s\<lparr>grid := removeIfPresent (updCell g col row (removeWall Right)) (col + 1) row Left\<rparr>, k + 3)
                else if wallToRemove = 2 \<and> row < MAZE_SIZE - 1 then
                  (s\<lparr>grid := removeIfPresent (updCell g col row (removeWall Bottom)) col (row + 1) Top\<rparr>, k + 3)
                else if wallToRemove = 3 \<and> col > 0 then
                  (s\<lparr>grid := removeIfPresent (updCell g col row (removeWall Left)) (col - 1) row Left\<rparr>, k + 3)
                else (s, k + 3)))"

fun addRandomPaths_loop :: "(nat \<Rightarrow> real) \<Rightarrow> nat \<Rightarrow> maze \<times> nat \<Rightarrow> maze \<times> nat" where
  "addRandomPaths_loop mrandom 0 sk = sk"
| "addRandomPaths_loop mrandom (Suc n) sk = addRandomPaths_loop mrandom n (addRandomPaths_iter mrandom sk)"

text \<open>\<open>addRandomPaths(count)\<close>, started when \<open>Math.random\<close> has been called \<open>k\<close> times.\<close>

definition addRandomPaths :: "(nat \<Rightarrow> real) \<Rightarrow> nat \<Rightarrow> maze \<times> nat \<Rightarrow> maze \<times> nat" where
  "addRandomPaths mrandom count sk = addRandomPaths_loop mrandom count sk"

section \<open>Predicates and invariants of the proofs\<close>

text \<open>
  A grid of \<open>MAZE_SIZE\<close> rows of \<open>MAZE_SIZE\<close> cells, and the flags of the cell at \<open>(x, y)\<close>
  (both flags read as absent where the grid has no cell).
\<close>

definition wf_grid :: "cell list list \<Rightarrow> bool" where
  "wf_grid g = (length g = nat MAZE_SIZE \<and> list_all (\<lambda>row. length row = nat MAZE_SIZE) g)"

definition visitedAt :: "cell list list \<Rightarrow> int \<Rightarrow> int \<Rightarrow> bool" where
  "visitedAt g x y = (case cellAt g x y of None \<Rightarrow> False | Some c \<Rightarrow> visited c)"

definition wallAt :: "cell list list \<Rightarrow> int \<Rightarrow> int \<Rightarrow> WallDirection \<Rightarrow> bool" where
  "wallAt g x y w = (case cellAt g x y of None \<Rightarrow> False | Some c \<Rightarrow> hasWall w c)"

text \<open>The in-bounds cells not yet visited, and the four-neighbourhood of \<open>DIRECTIONS\<close>.\<close>

definition unvisited :: "cell list list \<Rightarrow> (int \<times> int) set" where
  "unvisited g = {(x, y). isValidCell x y \<and> \<not> visitedAt g x y}"

definition neighbourOf :: "int \<times> int \<Rightarrow> int \<times> int \<Rightarrow> bool" where
  "neighbourOf p q = (\<exists>i<length DIRECTIONS. fst q = fst p + dir_x (DIRECTIONS ! i) \<and> snd q = snd p + dir_y (DIRECTIONS ! i))"

text \<open>
  The body of the carving loop without the \<open>continue\<close>s and without the repair: what \<open>dfs_iter\<close>
  computes on every state that satisfies the invariant \<open>dfs_inv\<close> (lemma \<open>dfs_iter_eq_step\<close>).
\<close>

definition dfs_step :: "(real \<Rightarrow> real) \<Rightarrow> maze \<Rightarrow> (int \<times> int) list \<Rightarrow> maze \<times> (int \<times> int) list" where
  "dfs_step msin s stack =
    (let x = fst (hd stack); y = snd (hd stack);
         neighbors = unvisitedNeighbors (grid s) x y
     in if neighbors = [] then (s, tl stack)
        else
          (let n = neighbors ! nat \<lfloor>fst (seedRandom msin s) * of_nat (length neighbors)\<rfloor>;
               dir = DIRECTIONS ! snd (snd n)
           in (s\<lparr>currentSeed := currentSeed s + 1,
                 grid := updCell (removeWallPair (grid s) x y (wall dir) (fst n) (fst (snd n)) (opposite dir))
                           (fst n) (fst (snd n)) markVisited\<rparr>,
               (fst n, fst (snd n)) # stack)))"

text \<open>
  The invariant of the carving loop: the grid is well formed and the exit in bounds; the cells on
  the stack are in bounds and visited; a visited cell that is not on the stack has all its
  in-bounds neighbours visited; some cell is visited. The measure counts the unvisited cells
  twice and the stack once: a push and a pop both decrease it.
\<close>

definition dfs_inv :: "maze \<Rightarrow> (int \<times> int) list \<Rightarrow> bool" where
  "dfs_inv s st =
    (wf_grid (grid s) \<and> isValidCell (fst (exit s)) (snd (exit s)) \<and>
     (\<forall>p. p \<in> set st \<longrightarrow> isValidCell (fst p) (snd p) \<and> visitedAt (grid s) (fst p) (snd p)) \<and>
     (\<forall>p q. isValidCell (fst p) (snd p) \<and> visitedAt (grid s) (fst p) (snd p) \<and> p \<notin> set st \<and>
            neighbourOf p q \<and> isValidCell (fst q) (snd q) \<longrightarrow> visitedAt (grid s) (fst q) (snd q)) \<and>
     (\<exists>p. isValidCell (fst p) (snd p) \<and> visitedAt (grid s) (fst p) (snd p)))"

definition dfs_measure :: "maze \<Rightarrow> (int \<times> int) list \<Rightarrow> nat" where
  "dfs_measure s st = 2 * card (unvisited (grid s)) + length st"

text \<open>
  The invariant of the carving loop inside \<open>generateMaze\<close>, and the state in which
  \<open>generateMaze\<close> enters \<open>depthFirstSearch\<close> (\<open>start_state\<close>) and the loop (\<open>carve_start\<close>).
\<close>

definition carve_inv :: "vec3 \<Rightarrow> maze \<Rightarrow> (int \<times> int) list \<Rightarrow> bool" where
  "carve_inv p0 s st =
    (dfs_inv s st \<and> entrance s = (MAZE_SIZE div 2, 0) \<and> exit s = (MAZE_SIZE div 2, MAZE_SIZE - 1) \<and>
     entranceWorldPosition s = p0 \<and> \<not> wallAt (grid s) (MAZE_SIZE div 2) 0 Top)"

definition start_state :: "maze \<Rightarrow> maze" where
  "start_state s =
    (openWall (s\<lparr>currentSeed := FIXED_SEED, entrance := (MAZE_SIZE div 2, 0), grid := initializeGrid\<rparr>)
       (MAZE_SIZE div 2) 0 Top)\<lparr>exit := (MAZE_SIZE div 2, MAZE_SIZE - 1)\<rparr>"

definition carve_start :: "maze \<Rightarrow> maze" where
  "carve_start s =
     (start_state s)\<lparr>grid := updCell (grid (start_state s)) (MAZE_SIZE div 2) 0 markVisited\<rparr>"

text \<open>
  The corridor of the repair in the words of the specification: from the start cell \<open>c\<close> it runs
  along the column of \<open>c\<close> to the row of the exit \<open>e\<close>, then along that row to \<open>e\<close>.
  \<open>spec_corridor c e a b\<close>: the cell \<open>(a, b)\<close> lies on it. \<open>spec_corridorWall c e a b w\<close>: wall
  \<open>w\<close> of the cell \<open>(a, b)\<close> lies between two consecutive cells of it.
\<close>

definition spec_corridor :: "int \<times> int \<Rightarrow> int \<times> int \<Rightarrow> int \<Rightarrow> int \<Rightarrow> bool" where
  "spec_corridor c e a b =
    ((a = fst c \<and> min (snd c) (snd e) \<le> b \<and> b \<le> max (snd c) (snd e)) \<or>
     (b = snd e \<and> min (fst c) (fst e) \<le> a \<and> a \<le> max (fst c) (fst e)))"

definition spec_corridorWall :: "int \<times> int \<Rightarrow> int \<times> int \<Rightarrow> int \<Rightarrow> int \<Rightarrow> WallDirection \<Rightarrow> bool" where
  "spec_corridorWall c e a b w =
    ((a = fst c \<and> min (snd c) (snd e) \<le> b \<and> b < max (snd c) (snd e) \<and> w = Bottom) \<or>
     (a = fst c \<and> min (snd c) (snd e) < b \<and> b \<le> max (snd c) (snd e) \<and> w = Top) \<or>
     (b = snd e \<and> min (fst c) (fst e) \<le> a \<and> a < max (fst c) (fst e) \<and> w = Right) \<or>
     (b = snd e \<and> min (fst c) (fst e) < a \<and> a \<le> max (fst c) (fst e) \<and> w = Left))"

text \<open>What the loop of \<open>createPathToExit\<close> started at \<open>(x, y)\<close> in \<open>s\<close> leaves in \<open>r\<close>.\<close>

definition corridor_post :: "maze \<Rightarrow> int \<Rightarrow> int \<Rightarrow> maze \<Rightarrow> bool" where
  "corridor_post s x y r =
    (wf_grid (grid r) \<and> exit r = exit s \<and> entrance r = entrance s \<and>
     entranceWorldPosition r = entranceWorldPosition s \<and> currentSeed r = currentSeed s \<and>
     (\<forall>a b. visitedAt (grid r) a b =
        (visitedAt (grid s) a b \<or> (spec_corridor (x, y) (exit s) a b \<and> (a, b) \<noteq> exit s))) \<and>
     (\<forall>a b w. wallAt (grid r) a b w = (wallAt (grid s) a b w \<and> \<not> spec_corridorWall (x, y) (exit s) a b w)))"

text \<open>
  The scan order of \<open>connectToExit\<close> in the words of the specification: row by row, and from left
  to right inside a row. \<open>closerThan s c p\<close>: \<open>c\<close> is at most as far from the exit as \<open>p\<close>, and
  when both are equally far \<open>c\<close> comes first in that order.
\<close>

definition rowMajorLess :: "int \<times> int \<Rightarrow> int \<times> int \<Rightarrow> bool" where
  "rowMajorLess p q = (snd p < snd q \<or> (snd p = snd q \<and> fst p < fst q))"

definition closerThan :: "maze \<Rightarrow> int \<times> int \<Rightarrow> int \<times> int \<Rightarrow> bool" where
  "closerThan s c p =
    (manhattan c (exit s) \<le> manhattan p (exit s) \<and>
     (manhattan p (exit s) = manhattan c (exit s) \<longrightarrow> p = c \<or> rowMajorLess c p))"

text \<open>The invariant of the scan, after the cells in \<open>P\<close>, for the value of \<open>closestCell\<close>.\<close>

definition closest_inv :: "maze \<Rightarrow> (int \<times> int) set \<Rightarrow> (int \<times> int \<times> int) option \<Rightarrow> bool" where
  "closest_inv s P acc =
    (case acc of
       None \<Rightarrow> (\<forall>p. p \<in> P \<longrightarrow> \<not> visitedAt (grid s) (fst p) (snd p))
     | Some c \<Rightarrow>
         (fst c, fst (snd c)) \<in> P \<and> visitedAt (grid s) (fst c) (fst (snd c)) \<and>
         snd (snd c) = manhattan (fst c, fst (snd c)) (exit s) \<and>
         (\<forall>p. p \<in> P \<and> visitedAt (grid s) (fst p) (snd p) \<longrightarrow> closerThan s (fst c, fst (snd c)) p))"

section \<open>Grid access lemmas\<close>

lemma length_updCell [simp]: "length (updCell g x y f) = length g"
  by (simp add: updCell_def)

lemma cellAt_updCell:
  assumes "0 \<le> x" "0 \<le> y"
  shows "cellAt (updCell g x y f) x' y' =
     (if x' = x \<and> y' = y then map_option f (cellAt g x y) else cellAt g x' y')"
proof (cases "0 \<le> y' \<and> y' < int (length g)")
  case False
  then show ?thesis using assms by (auto simp: cellAt_def)
next
  case True
  then have ly: "nat y' < length g" by auto
  show ?thesis
  proof (cases "y' = y")
    case False
    then have "nat y' \<noteq> nat y" using True assms by auto
    then show ?thesis using False by (auto simp: cellAt_def updCell_def)
  next
    case y: True
    show ?thesis
    proof (cases "x' = x")
      case True
      then show ?thesis using y ly by (auto simp: cellAt_def updCell_def)
    next
      case False
      then have "0 \<le> x' \<Longrightarrow> nat x' \<noteq> nat x" using assms by auto
      then show ?thesis using y ly False by (auto simp: cellAt_def updCell_def)
    qed
  qed
qed

lemma wf_updCell [simp]: "wf_grid (updCell g x y f) = wf_grid g"
proof -
  have "list_all (\<lambda>row. length row = n) (g[i := (g ! i)[j := v]]) = list_all (\<lambda>row. length row = n) g"
    for n i j v
  proof (cases "i < length g")
    case True
    have "(\<forall>k<length g. length (g[i := (g ! i)[j := v]] ! k) = n) = (\<forall>k<length g. length (g ! k) = n)"
      by (metis length_list_update nth_list_update_eq nth_list_update_neq True)
    then show ?thesis by (simp add: list_all_length)
  next
    case False
    then have "length g \<le> i" by auto
    then show ?thesis by (simp add: list_update_beyond)
  qed
  then show ?thesis by (simp add: wf_grid_def updCell_def)
qed

lemma wf_initializeGrid [simp]: "wf_grid initializeGrid"
  by (simp add: wf_grid_def initializeGrid_def list_all_length)

lemma cellAt_initializeGrid:
  "isValidCell x y \<Longrightarrow>
   cellAt initializeGrid x y =
     Some \<lparr>cell_x = x, cell_y = y, visited = False,
           walls = \<lparr>w_top = True, w_right = True, w_bottom = True, w_left = True\<rparr>\<rparr>"
  by (simp add: cellAt_def initializeGrid_def isValidCell_def)

lemma wf_cellAt: 
  assumes "wf_grid g" shows "(cellAt g x y \<noteq> None) = isValidCell x y"
proof -
  have l: "int (length g) = MAZE_SIZE" "0 \<le> MAZE_SIZE" using assms by (simp_all add: wf_grid_def MAZE_SIZE_def)
  have "0 \<le> y \<Longrightarrow> y < MAZE_SIZE \<Longrightarrow> int (length (g ! nat y)) = MAZE_SIZE"
    using assms l by (simp add: wf_grid_def list_all_length)
  then show ?thesis using l by (simp add: cellAt_def isValidCell_def) 
qed


lemma wf_cellAt_Some: "wf_grid g \<Longrightarrow> isValidCell x y \<Longrightarrow> \<exists>c. cellAt g x y = Some c"
  using wf_cellAt by blast

lemma validCellAt_wf: "wf_grid g \<Longrightarrow> validCellAt g x y = cellAt g x y"
  using wf_cellAt [of g x y] by (auto simp: validCellAt_def)

lemma visited_removeWall [simp]: "visited (removeWall w c) = visited c"
  by (cases w) simp_all

lemma walls_markVisited [simp]: "walls (markVisited c) = walls c"
  by (simp add: markVisited_def)

lemma hasWall_markVisited [simp]: "hasWall w (markVisited c) = hasWall w c"
  by (cases w) simp_all

lemma visited_markVisited [simp]: "visited (markVisited c)"
  by (simp add: markVisited_def)

lemma hasWall_removeWall [simp]: "hasWall w (removeWall w' c) = (w \<noteq> w' \<and> hasWall w c)"
  by (cases w; cases w'; simp)

lemma scanOrder_set: "set scanOrder = {(x, y). isValidCell x y}"
proof (rule set_eqI)
  fix p :: "int \<times> int"
  obtain a b where p: "p = (a, b)" by (cases p)
  have "(a, b) \<in> set scanOrder \<longleftrightarrow>
        (\<exists>z<nat MAZE_SIZE. \<exists>x<nat MAZE_SIZE. a = int x \<and> b = int z)"
    by (auto simp: scanOrder_def image_iff Bex_def)
  also have "\<dots> \<longleftrightarrow> isValidCell a b"
  proof
    assume "\<exists>z<nat MAZE_SIZE. \<exists>x<nat MAZE_SIZE. a = int x \<and> b = int z"
    then show "isValidCell a b" by (auto simp: isValidCell_def)
  next
    assume v: "isValidCell a b"
    then have "nat b < nat MAZE_SIZE" "nat a < nat MAZE_SIZE" "a = int (nat a)" "b = int (nat b)"
      by (auto simp: isValidCell_def)
    then show "\<exists>z<nat MAZE_SIZE. \<exists>x<nat MAZE_SIZE. a = int x \<and> b = int z" by blast
  qed
  finally show "p \<in> set scanOrder \<longleftrightarrow> p \<in> {(x, y). isValidCell x y}" using p by simp
qed

section \<open>Walkability queries\<close>

lemma seedRandom_range: "0 \<le> fst (seedRandom msin s) \<and> fst (seedRandom msin s) < 1"
  by (simp add: seedRandom_def Let_def) linarith

text \<open>
  Claim C10. The \<open>worldY\<close> argument of \<open>isWalkablePath\<close> is ignored: two calls that differ
  only in \<open>worldY\<close> return the same answer, in every state.
\<close>

theorem isWalkablePath_ignores_worldY:
  "isWalkablePath s worldX y1 worldZ = isWalkablePath s worldX y2 worldZ"
  by (simp add: isWalkablePath_def)

lemma isWalkableCell_visitedAt: "isWalkableCell s x z = visitedAt (grid s) x z"
  by (simp add: isWalkableCell_def visitedAt_def)

lemma set_getAllWalkableCells:
  "set (getAllWalkableCells s) = {(x, z). isValidCell x z \<and> isWalkableCell s x z}"
  by (auto simp: getAllWalkableCells_def scanOrder_set)

lemma getCellCenter_seed [simp]: "getCellCenter (s\<lparr>currentSeed := k\<rparr>) x z = getCellCenter s x z"
  by (simp add: getCellCenter_def)

lemma snd_seedRandom [simp]: "snd (seedRandom msin s) = s\<lparr>currentSeed := currentSeed s + 1\<rparr>"
  by (simp add: seedRandom_def Let_def)

lemma floor_draw_range:
  assumes "0 \<le> r" "r < 1" "0 < n"
  shows "0 \<le> \<lfloor>r * of_nat n\<rfloor> \<and> \<lfloor>r * of_nat n\<rfloor> < int n"
proof -
  have "0 \<le> r * of_nat n" using assms by simp
  moreover have "r * of_nat n < of_nat n" using assms by simp
  ultimately show ?thesis by (simp add: floor_less_iff)
qed

lemma getRandomWalkablePosition_pick:
  fixes r :: real
  assumes W: "getAllWalkableCells s \<noteq> []"
  defines "E \<equiv> filter (\<lambda>c. of_int (manhattan c (entrance s)) > r
                            \<and> of_int (manhattan c (exit s)) > r) (getAllWalkableCells s)"
  defines "xs \<equiv> (if r > 0 \<and> E \<noteq> [] then E else getAllWalkableCells s)"
  shows "\<exists>c\<in>set xs. getRandomWalkablePosition msin r s =
           (Some (getCellCenter s (fst c) (snd c)), s\<lparr>currentSeed := currentSeed s + 1\<rparr>)"
proof -
  define i where "i = min \<lfloor>fst (seedRandom msin s) * of_nat (length xs)\<rfloor> (int (length xs) - 1)"
  have "xs \<noteq> []" using W by (simp add: xs_def)
  then have n: "0 < length xs" by simp
  have "0 \<le> \<lfloor>fst (seedRandom msin s) * of_nat (length xs)\<rfloor>"
    using floor_draw_range [OF _ _ n] seedRandom_range by blast
  then have i: "0 \<le> i" "i < int (length xs)" using n by (auto simp: i_def)
  then have mem: "xs ! nat i \<in> set xs" by simp
  have xs: "(let e = (if r > 0 then E else getAllWalkableCells s)
             in if length e = 0 then getAllWalkableCells s else e) = xs"
    using W by (auto simp: xs_def Let_def)
  have "getRandomWalkablePosition msin r s =
        (Some (getCellCenter s (fst (xs ! nat i)) (snd (xs ! nat i))), s\<lparr>currentSeed := currentSeed s + 1\<rparr>)"
    using W n i xs unfolding getRandomWalkablePosition_def i_def E_def
    by (simp add: Let_def case_prod_beta) 
  then show ?thesis using mem by blast
qed

lemma getRandomWalkablePosition_empty:
  "getAllWalkableCells s = [] \<Longrightarrow> getRandomWalkablePosition msin r s = (None, s)"
  by (simp add: getRandomWalkablePosition_def)

text \<open>
  Claim C4. In every state, \<open>isWalkablePath\<close> answers true when \<open>worldZ\<close> is below 0 or at least
  \<open>MAZE_SIZE * PATH_WIDTH\<close>. Otherwise it answers true exactly when the grid coordinate
  \<open>(floor (worldX / PATH_WIDTH), floor (worldZ / PATH_WIDTH))\<close> is in bounds and the cell there has
  its visited flag set, and it answers false for a grid coordinate out of bounds.
\<close>

theorem isWalkablePath_agrees_with_visited:
  "(worldZ < 0 \<or> worldZ \<ge> of_int (MAZE_SIZE * PATH_WIDTH) \<longrightarrow> isWalkablePath s worldX worldY worldZ) \<and>
   (\<not> (worldZ < 0 \<or> worldZ \<ge> of_int (MAZE_SIZE * PATH_WIDTH)) \<longrightarrow>
      isWalkablePath s worldX worldY worldZ =
        (isValidCell \<lfloor>worldX / of_int PATH_WIDTH\<rfloor> \<lfloor>worldZ / of_int PATH_WIDTH\<rfloor> \<and>
         visitedAt (grid s) \<lfloor>worldX / of_int PATH_WIDTH\<rfloor> \<lfloor>worldZ / of_int PATH_WIDTH\<rfloor>)) \<and>
   (\<not> (worldZ < 0 \<or> worldZ \<ge> of_int (MAZE_SIZE * PATH_WIDTH)) \<and>
    \<not> isValidCell \<lfloor>worldX / of_int PATH_WIDTH\<rfloor> \<lfloor>worldZ / of_int PATH_WIDTH\<rfloor> \<longrightarrow>
      \<not> isWalkablePath s worldX worldY worldZ)"
  by (simp add: isWalkablePath_def isWalkableCell_visitedAt Let_def)

lemma getRandomWalkablePosition_cells:
  fixes r :: real
  assumes "0 < r"
  shows
   "((\<exists>x z. isValidCell x z \<and> isWalkableCell s x z \<and>
            r < of_int (manhattan (x, z) (entrance s)) \<and> r < of_int (manhattan (x, z) (exit s))) \<longrightarrow>
     (\<exists>x z. isValidCell x z \<and> isWalkableCell s x z \<and>
            r < of_int (manhattan (x, z) (entrance s)) \<and> r < of_int (manhattan (x, z) (exit s)) \<and>
            fst (getRandomWalkablePosition msin r s) = Some (getCellCenter s x z))) \<and>
    ((\<exists>x z. isValidCell x z \<and> isWalkableCell s x z) \<longrightarrow>
     (\<exists>x z. isValidCell x z \<and> isWalkableCell s x z \<and>
            fst (getRandomWalkablePosition msin r s) = Some (getCellCenter s x z))) \<and>
    ((fst (getRandomWalkablePosition msin r s) = None) =
     (\<not> (\<exists>x z. isValidCell x z \<and> isWalkableCell s x z)))"
proof -
  let ?W = "getAllWalkableCells s"
  let ?E = "filter (\<lambda>c. of_int (manhattan c (entrance s)) > r
                            \<and> of_int (manhattan c (exit s)) > r) ?W"
  let ?res = "fst (getRandomWalkablePosition msin r s)"
  have Wset: "\<And>c. c \<in> set ?W \<longleftrightarrow> isValidCell (fst c) (snd c) \<and> isWalkableCell s (fst c) (snd c)"
    by (auto simp: set_getAllWalkableCells)
  have pick: "?W \<noteq> [] \<Longrightarrow>
      \<exists>c\<in>set (if r > 0 \<and> ?E \<noteq> [] then ?E else ?W). ?res = Some (getCellCenter s (fst c) (snd c))"
    using getRandomWalkablePosition_pick [of s r msin] by force
  have c1: "\<exists>x z. isValidCell x z \<and> isWalkableCell s x z \<and>
            r < of_int (manhattan (x, z) (entrance s)) \<and> r < of_int (manhattan (x, z) (exit s)) \<and>
            ?res = Some (getCellCenter s x z)"
    if "isValidCell x0 z0" "isWalkableCell s x0 z0"
       "r < of_int (manhattan (x0, z0) (entrance s))" "r < of_int (manhattan (x0, z0) (exit s))"
    for x0 z0
  proof -
    have "(x0, z0) \<in> set ?E" using that by (simp add: Wset)
    then have E: "?E \<noteq> []" by (auto simp: filter_empty_conv)
    then have "?W \<noteq> []" by auto
    from pick [OF this] E assms
    have "\<exists>c\<in>set ?E. ?res = Some (getCellCenter s (fst c) (snd c))" by simp
    then obtain c where c: "c \<in> set ?E" "?res = Some (getCellCenter s (fst c) (snd c))" by blast
    from c(1) have "c \<in> set ?W" "r < of_int (manhattan c (entrance s))" "r < of_int (manhattan c (exit s))"
      by simp_all
    with c(2) Wset [of c] show ?thesis
      by (intro exI [of _ "fst c"] exI [of _ "snd c"]) simp
  qed
  have c2: "\<exists>x z. isValidCell x z \<and> isWalkableCell s x z \<and> ?res = Some (getCellCenter s x z)"
    if "isValidCell x0 z0" "isWalkableCell s x0 z0" for x0 z0
  proof -
    have "(x0, z0) \<in> set ?W" using that by (simp add: Wset)
    then have "?W \<noteq> []" by auto
    from pick [OF this] obtain c
      where c0: "c \<in> set (if r > 0 \<and> ?E \<noteq> [] then ?E else ?W)"
        and c1: "?res = Some (getCellCenter s (fst c) (snd c))" by blast
    have "set (if r > 0 \<and> ?E \<noteq> [] then ?E else ?W) \<subseteq> set ?W" by auto
    with c0 c1 have c: "c \<in> set ?W" "?res = Some (getCellCenter s (fst c) (snd c))" by blast+
    with Wset [of c] show ?thesis
      by (intro exI [of _ "fst c"] exI [of _ "snd c"]) simp
  qed
  have c3: "(?res = None) = (\<not> (\<exists>x z. isValidCell x z \<and> isWalkableCell s x z))"
  proof (cases "?W = []")
    case True
    then have "?res = None" by (simp add: getRandomWalkablePosition_empty)
    moreover have "\<not> (\<exists>x z. isValidCell x z \<and> isWalkableCell s x z)"
      using True Wset by (metis empty_iff empty_set fst_conv snd_conv)
    ultimately show ?thesis by simp
  next
    case False
    then obtain c where "c \<in> set ?W" by (cases ?W) auto
    then have "isValidCell (fst c) (snd c) \<and> isWalkableCell s (fst c) (snd c)" using Wset by blast
    with c2 show ?thesis by fastforce
  qed
  from c1 c2 c3 show ?thesis by blast
qed

lemma getCellCenter_coordinates:
  "getCellCenter s x z =
     \<lparr>px = 4 * of_int x + 2, py = py (entranceWorldPosition s) + 1, pz = 4 * of_int z + 2\<rparr>"
  by (simp add: getCellCenter_def PATH_WIDTH_def)

lemma manhattan_explicit:
  "manhattan (x, z) p = \<bar>x - fst p\<bar> + \<bar>z - snd p\<bar>"
  by (simp add: manhattan_def)

text \<open>
  Claim C5. For a positive \<open>excludeRadius\<close> \<open>r\<close>: when some in-bounds cell \<open>(x, z)\<close> has its visited
  flag set and lies farther than \<open>r\<close> (Manhattan distance) from both the entrance and the exit,
  \<open>getRandomWalkablePosition\<close> returns the world point
  \<open>(4 x + 2, entranceWorldPosition.y + 1, 4 z + 2)\<close>, the centre of such a cell; when some in-bounds
  cell is visited at all, it returns the centre \<open>(4 x + 2, entranceWorldPosition.y + 1, 4 z + 2)\<close>
  of a visited in-bounds cell; and it returns \<open>null\<close> exactly when no in-bounds cell is visited.
\<close>

theorem getRandomWalkablePosition_exclusion:
  fixes r :: real
  assumes "0 < r"
  shows
   "((\<exists>x z. isValidCell x z \<and> visitedAt (grid s) x z \<and>
            r < of_int (\<bar>x - fst (entrance s)\<bar> + \<bar>z - snd (entrance s)\<bar>) \<and>
            r < of_int (\<bar>x - fst (exit s)\<bar> + \<bar>z - snd (exit s)\<bar>)) \<longrightarrow>
     (\<exists>x z. isValidCell x z \<and> visitedAt (grid s) x z \<and>
            r < of_int (\<bar>x - fst (entrance s)\<bar> + \<bar>z - snd (entrance s)\<bar>) \<and>
            r < of_int (\<bar>x - fst (exit s)\<bar> + \<bar>z - snd (exit s)\<bar>) \<and>
            fst (getRandomWalkablePosition msin r s) =
              Some \<lparr>px = 4 * of_int x + 2, py = py (entranceWorldPosition s) + 1,
                    pz = 4 * of_int z + 2\<rparr>)) \<and>
    ((\<exists>x z. isValidCell x z \<and> visitedAt (grid s) x z) \<longrightarrow>
     (\<exists>x z. isValidCell x z \<and> visitedAt (grid s) x z \<and>
            fst (getRandomWalkablePosition msin r s) =
              Some \<lparr>px = 4 * of_int x + 2, py = py (entranceWorldPosition s) + 1,
                    pz = 4 * of_int z + 2\<rparr>)) \<and>
    ((fst (getRandomWalkablePosition msin r s) = None) =
     (\<not> (\<exists>x z. isValidCell x z \<and> visitedAt (grid s) x z)))"
  using getRandomWalkablePosition_cells [OF assms, of s msin]
  unfolding isWalkableCell_visitedAt getCellCenter_coordinates manhattan_explicit .

text \<open>
  Claim C9, as the code has it. No query changes the grid, the entrance or the exit.
  \<open>isWalkablePath\<close>, \<open>getCellCenter\<close>, \<open>getAllWalkableCells\<close> and \<open>getExit\<close> leave the whole state as
  it is. \<open>getEntrance\<close> stores the entrance position it computes in \<open>entranceWorldPosition\<close> and
  changes nothing else; \<open>getRandomWalkablePosition\<close> advances \<open>currentSeed\<close> by one when some
  cell is walkable and changes nothing else.
\<close>

theorem query_effects:
  "grid (stateAfter msin q s) = grid s \<and>
   entrance (stateAfter msin q s) = entrance s \<and>
   exit (stateAfter msin q s) = exit s \<and>
   (q \<noteq> GetEntrance \<longrightarrow> entranceWorldPosition (stateAfter msin q s) = entranceWorldPosition s) \<and>
   (q = GetEntrance \<longrightarrow>
      entranceWorldPosition (stateAfter msin q s) =
        \<lparr>px = of_int (fst (entrance s) * PATH_WIDTH) + of_int PATH_WIDTH / 2, py = 1,
         pz = - of_int PLATFORM_DEPTH / 2\<rparr>) \<and>
   ((\<forall>r. q \<noteq> GetRandomWalkablePosition r) \<longrightarrow> currentSeed (stateAfter msin q s) = currentSeed s) \<and>
   (\<forall>r. q = GetRandomWalkablePosition r \<longrightarrow>
      currentSeed (stateAfter msin q s) =
        (if getAllWalkableCells s = [] then currentSeed s else currentSeed s + 1)) \<and>
   (q \<noteq> GetEntrance \<and> (\<forall>r. q \<noteq> GetRandomWalkablePosition r) \<longrightarrow> stateAfter msin q s = s)"
proof -
  have r: "snd (getRandomWalkablePosition msin r s) =
      (if getAllWalkableCells s = [] then s else s\<lparr>currentSeed := currentSeed s + 1\<rparr>)" for r
    using getRandomWalkablePosition_pick [of s r msin] getRandomWalkablePosition_empty [of s msin r]
    by (cases "getAllWalkableCells s = []") auto
  show ?thesis
    by (cases q) (simp_all add: r getEntrance_def Let_def)
qed

lemma length_DIRECTIONS [simp]: "length DIRECTIONS = 4"
  by (simp add: DIRECTIONS_def)

lemma neighbourOf_iff:
  "neighbourOf p q \<longleftrightarrow>
     (fst q = fst p \<and> snd q = snd p - 1) \<or> (fst q = fst p + 1 \<and> snd q = snd p) \<or>
     (fst q = fst p \<and> snd q = snd p + 1) \<or> (fst q = fst p - 1 \<and> snd q = snd p)"
proof -
  have "(\<exists>i<4::nat. P i) \<longleftrightarrow> P 0 \<or> P 1 \<or> P 2 \<or> P 3" for P
  proof
    assume "\<exists>i<4::nat. P i"
    then obtain i where "i < 4" "P i" by blast
    then have "i = 0 \<or> i = 1 \<or> i = 2 \<or> i = 3" by arith
    with \<open>P i\<close> show "P 0 \<or> P 1 \<or> P 2 \<or> P 3" by blast
  next
    assume a: "P 0 \<or> P 1 \<or> P 2 \<or> P 3"
    have "(0::nat) < 4" "(1::nat) < 4" "(2::nat) < 4" "(3::nat) < 4" by simp_all
    with a show "\<exists>i<4::nat. P i" by blast
  qed
  then show ?thesis
    by (simp add: neighbourOf_def) (simp add: DIRECTIONS_def)
qed

lemma unvisitedNeighbors_mem:
  "n \<in> set (unvisitedNeighbors g x y) \<longleftrightarrow>
     snd (snd n) < length DIRECTIONS \<and>
     fst n = x + dir_x (DIRECTIONS ! snd (snd n)) \<and>
     fst (snd n) = y + dir_y (DIRECTIONS ! snd (snd n)) \<and>
     isValidCell (fst n) (fst (snd n)) \<and>
     (case cellAt g (fst n) (fst (snd n)) of None \<Rightarrow> False | Some c \<Rightarrow> \<not> visited c)"
  by (cases n) (auto simp: unvisitedNeighbors_def)

lemma unvisitedNeighbors_wf:
  assumes "wf_grid g"
  shows "n \<in> set (unvisitedNeighbors g x y) \<longleftrightarrow>
     snd (snd n) < length DIRECTIONS \<and>
     fst n = x + dir_x (DIRECTIONS ! snd (snd n)) \<and>
     fst (snd n) = y + dir_y (DIRECTIONS ! snd (snd n)) \<and>
     (fst n, fst (snd n)) \<in> unvisited g"
proof -
  have "isValidCell a b \<Longrightarrow> (case cellAt g a b of None \<Rightarrow> False | Some c \<Rightarrow> \<not> visited c) = (\<not> visitedAt g a b)"
    for a b
    using wf_cellAt_Some [OF assms, of a b] by (auto simp: visitedAt_def)
  then show ?thesis
    unfolding unvisitedNeighbors_mem unvisited_def by auto
qed

lemma unvisitedNeighbors_empty:
  assumes "wf_grid g" "unvisitedNeighbors g x y = []" "neighbourOf (x, y) q" "isValidCell (fst q) (snd q)"
  shows "visitedAt g (fst q) (snd q)"
proof (rule ccontr)
  assume nv: "\<not> visitedAt g (fst q) (snd q)"
  from assms(3) obtain i where i: "i < length DIRECTIONS"
    "fst q = x + dir_x (DIRECTIONS ! i)" "snd q = y + dir_y (DIRECTIONS ! i)"
    by (auto simp: neighbourOf_def)
  have "(fst q, snd q, i) \<in> set (unvisitedNeighbors g x y)"
    unfolding unvisitedNeighbors_wf [OF assms(1)] unvisited_def using i nv assms(4) by simp
  with assms(2) show False by simp
qed

lemma finite_unvisited [simp]: "finite (unvisited g)"
proof -
  have "unvisited g \<subseteq> {0..<MAZE_SIZE} \<times> {0..<MAZE_SIZE}"
    by (auto simp: unvisited_def isValidCell_def)
  then show ?thesis by (rule finite_subset) simp
qed

lemma wf_removeWallPair [simp]: "wf_grid (removeWallPair g x y w nx ny w') = wf_grid g"
  by (simp add: removeWallPair_def)

lemma visitedAt_removeWallPair:
  "0 \<le> x \<Longrightarrow> 0 \<le> y \<Longrightarrow> 0 \<le> nx \<Longrightarrow> 0 \<le> ny \<Longrightarrow>
   visitedAt (removeWallPair g x y w nx ny w') a b = visitedAt g a b"
  by (auto simp: visitedAt_def removeWallPair_def cellAt_updCell split: option.splits)

lemma wallAt_removeWallPair:
  "0 \<le> x \<Longrightarrow> 0 \<le> y \<Longrightarrow> 0 \<le> nx \<Longrightarrow> 0 \<le> ny \<Longrightarrow>
   wallAt (removeWallPair g x y w nx ny w') a b v =
     (wallAt g a b v \<and> \<not> (a = x \<and> b = y \<and> v = w) \<and> \<not> (a = nx \<and> b = ny \<and> v = w'))"
  by (auto simp: wallAt_def removeWallPair_def cellAt_updCell split: option.splits)

lemma visitedAt_markVisited:
  "0 \<le> x \<Longrightarrow> 0 \<le> y \<Longrightarrow>
   visitedAt (updCell g x y markVisited) a b = (visitedAt g a b \<or> (a = x \<and> b = y \<and> cellAt g x y \<noteq> None))"
  by (auto simp: visitedAt_def cellAt_updCell split: option.splits)

lemma wallAt_markVisited:
  "0 \<le> x \<Longrightarrow> 0 \<le> y \<Longrightarrow> wallAt (updCell g x y markVisited) a b v = wallAt g a b v"
  by (auto simp: wallAt_def cellAt_updCell split: option.splits)

lemma wallAt_removeWall:
  "0 \<le> x \<Longrightarrow> 0 \<le> y \<Longrightarrow>
   wallAt (updCell g x y (removeWall w)) a b v = (wallAt g a b v \<and> \<not> (a = x \<and> b = y \<and> v = w))"
  by (auto simp: wallAt_def cellAt_updCell split: option.splits)

lemma visitedAt_removeWall:
  "0 \<le> x \<Longrightarrow> 0 \<le> y \<Longrightarrow> visitedAt (updCell g x y (removeWall w)) a b = visitedAt g a b"
  by (auto simp: visitedAt_def cellAt_updCell split: option.splits)

lemma isValidCell_nonneg: "isValidCell x y \<Longrightarrow> 0 \<le> x \<and> 0 \<le> y"
  by (simp add: isValidCell_def)

lemma chosen_neighbor:
  assumes "neighbors \<noteq> []"
  shows "0 \<le> \<lfloor>fst (seedRandom msin s) * of_nat (length neighbors)\<rfloor>"
    and "\<lfloor>fst (seedRandom msin s) * of_nat (length neighbors)\<rfloor> < int (length neighbors)"
    and "neighbors ! nat \<lfloor>fst (seedRandom msin s) * of_nat (length neighbors)\<rfloor> \<in> set neighbors"
proof -
  have n: "0 < length neighbors" using assms by simp
  from floor_draw_range [OF _ _ n] seedRandom_range [of msin s]
  show a: "0 \<le> \<lfloor>fst (seedRandom msin s) * of_nat (length neighbors)\<rfloor>"
    and b: "\<lfloor>fst (seedRandom msin s) * of_nat (length neighbors)\<rfloor> < int (length neighbors)"
    by blast+
  from a b have "nat \<lfloor>fst (seedRandom msin s) * of_nat (length neighbors)\<rfloor> < length neighbors"
    by linarith
  then show "neighbors ! nat \<lfloor>fst (seedRandom msin s) * of_nat (length neighbors)\<rfloor> \<in> set neighbors"
    by (rule nth_mem)
qed

text \<open>Every cell is reached from a visited cell when visited cells pass the flag on.\<close>

lemma int_interval_reach:
  fixes a :: int
  assumes a: "P a" "0 \<le> a" "a < n"
    and up: "\<And>x. 0 \<le> x \<Longrightarrow> x + 1 < n \<Longrightarrow> P x \<Longrightarrow> P (x + 1)"
    and down: "\<And>x. 0 \<le> x - 1 \<Longrightarrow> x < n \<Longrightarrow> P x \<Longrightarrow> P (x - 1)"
    and x: "0 \<le> x" "x < n"
  shows "P x"
proof (cases "a \<le> x")
  case True
  then have "x < n \<longrightarrow> P x"
  proof (induction x rule: int_ge_induct)
    case base
    then show ?case using a by simp
  next
    case (step i)
    then show ?case using up [of i] a by auto
  qed
  then show ?thesis using x by simp
next
  case False
  then have "x \<le> a" by simp
  then have "0 \<le> x \<longrightarrow> P x"
  proof (induction x rule: int_le_induct)
    case base
    then show ?case using a by simp
  next
    case (step i)
    then show ?case using down [of i] a by auto
  qed
  then show ?thesis using x by simp
qed

lemma all_visited_when_closed:
  assumes closed: "\<And>p q. isValidCell (fst p) (snd p) \<Longrightarrow> visitedAt g (fst p) (snd p) \<Longrightarrow>
                     neighbourOf p q \<Longrightarrow> isValidCell (fst q) (snd q) \<Longrightarrow> visitedAt g (fst q) (snd q)"
    and start: "isValidCell a b" "visitedAt g a b"
    and q: "isValidCell x y"
  shows "visitedAt g x y"
proof -
  have row: "visitedAt g x b"
  proof (rule int_interval_reach [where P = "\<lambda>x. visitedAt g x b" and a = a and n = MAZE_SIZE])
    show "visitedAt g a b" by (rule start)
    show "0 \<le> a" "a < MAZE_SIZE" "0 \<le> x" "x < MAZE_SIZE" using start q by (simp_all add: isValidCell_def)
  next
    fix x assume "0 \<le> x" "x + 1 < MAZE_SIZE" "visitedAt g x b"
    then show "visitedAt g (x + 1) b"
      using closed [of "(x, b)" "(x + 1, b)"] start(1) by (simp add: isValidCell_def neighbourOf_iff)
  next
    fix x assume "0 \<le> x - 1" "x < MAZE_SIZE" "visitedAt g x b"
    then show "visitedAt g (x - 1) b"
      using closed [of "(x, b)" "(x - 1, b)"] start(1) by (simp add: isValidCell_def neighbourOf_iff)
  qed
  show ?thesis
  proof (rule int_interval_reach [where P = "\<lambda>y. visitedAt g x y" and a = b and n = MAZE_SIZE])
    show "visitedAt g x b" by (rule row)
    show "0 \<le> b" "b < MAZE_SIZE" "0 \<le> y" "y < MAZE_SIZE" using start q by (simp_all add: isValidCell_def)
  next
    fix y assume "0 \<le> y" "y + 1 < MAZE_SIZE" "visitedAt g x y"
    then show "visitedAt g x (y + 1)"
      using closed [of "(x, y)" "(x, y + 1)"] q by (simp add: isValidCell_def neighbourOf_iff)
  next
    fix y assume "0 \<le> y - 1" "y < MAZE_SIZE" "visitedAt g x y"
    then show "visitedAt g x (y - 1)"
      using closed [of "(x, y)" "(x, y - 1)"] q by (simp add: isValidCell_def neighbourOf_iff)
  qed
qed

lemma dfs_invI:
  assumes "wf_grid (grid s)" "isValidCell (fst (exit s)) (snd (exit s))"
    and "\<And>p. p \<in> set st \<Longrightarrow> isValidCell (fst p) (snd p) \<and> visitedAt (grid s) (fst p) (snd p)"
    and "\<And>p q. isValidCell (fst p) (snd p) \<Longrightarrow> visitedAt (grid s) (fst p) (snd p) \<Longrightarrow> p \<notin> set st \<Longrightarrow>
            neighbourOf p q \<Longrightarrow> isValidCell (fst q) (snd q) \<Longrightarrow> visitedAt (grid s) (fst q) (snd q)"
    and "\<exists>p. isValidCell (fst p) (snd p) \<and> visitedAt (grid s) (fst p) (snd p)"
  shows "dfs_inv s st"
  unfolding dfs_inv_def
proof (intro conjI allI impI)
  show "wf_grid (grid s)" "isValidCell (fst (exit s)) (snd (exit s))"
    "\<exists>p. isValidCell (fst p) (snd p) \<and> visitedAt (grid s) (fst p) (snd p)"
    by (rule assms)+
next
  fix p assume "p \<in> set st"
  then show "isValidCell (fst p) (snd p)" "visitedAt (grid s) (fst p) (snd p)" using assms(3) by blast+
next
  fix p q
  assume "isValidCell (fst p) (snd p) \<and> visitedAt (grid s) (fst p) (snd p) \<and> p \<notin> set st \<and>
            neighbourOf p q \<and> isValidCell (fst q) (snd q)"
  then show "visitedAt (grid s) (fst q) (snd q)" using assms(4) [of p q] by blast
qed

lemma dfs_invD:
  assumes "dfs_inv s st"
  shows "wf_grid (grid s)" "isValidCell (fst (exit s)) (snd (exit s))"
    and "\<And>p. p \<in> set st \<Longrightarrow> isValidCell (fst p) (snd p) \<and> visitedAt (grid s) (fst p) (snd p)"
    and "\<And>p q. isValidCell (fst p) (snd p) \<Longrightarrow> visitedAt (grid s) (fst p) (snd p) \<Longrightarrow> p \<notin> set st \<Longrightarrow>
            neighbourOf p q \<Longrightarrow> isValidCell (fst q) (snd q) \<Longrightarrow> visitedAt (grid s) (fst q) (snd q)"
    and "\<exists>p. isValidCell (fst p) (snd p) \<and> visitedAt (grid s) (fst p) (snd p)"
  using assms unfolding dfs_inv_def by blast+

lemma dfs_inv_all_visited:
  assumes "dfs_inv s []" "isValidCell x y"
  shows "visitedAt (grid s) x y"
proof -
  from dfs_invD(5) [OF assms(1)] obtain p
    where p: "isValidCell (fst p) (snd p)" "visitedAt (grid s) (fst p) (snd p)" by blast
  have closed: "visitedAt (grid s) (fst q) (snd q)"
    if "isValidCell (fst p) (snd p)" "visitedAt (grid s) (fst p) (snd p)"
       "neighbourOf p q" "isValidCell (fst q) (snd q)" for p q
  proof -
    have "p \<notin> set []" by simp
    from dfs_invD(4) [OF assms(1) that(1,2) this that(3,4)] show ?thesis .
  qed
  show ?thesis by (rule all_visited_when_closed [OF closed p assms(2)])
qed

lemma hasPathToExit_visitedAt:
  "hasPathToExit s = (isValidCell (fst (exit s)) (snd (exit s)) \<and> visitedAt (grid s) (fst (exit s)) (snd (exit s)))"
  by (simp add: hasPathToExit_def visitedAt_def)

lemma dfs_step_inv:
  assumes inv: "dfs_inv s st" and ne: "st \<noteq> []"
  shows "dfs_inv (fst (dfs_step msin s st)) (snd (dfs_step msin s st))"
    and "dfs_measure (fst (dfs_step msin s st)) (snd (dfs_step msin s st)) < dfs_measure s st"
proof -
  obtain x y rest where st: "st = (x, y) # rest" using ne by (cases st) auto
  let ?g = "grid s"
  let ?ns = "unvisitedNeighbors ?g x y"
  have wf: "wf_grid ?g" and ex: "isValidCell (fst (exit s)) (snd (exit s))"
    and stk: "\<And>p. p \<in> set st \<Longrightarrow> isValidCell (fst p) (snd p) \<and> visitedAt ?g (fst p) (snd p)"
    and closed: "\<And>p q. isValidCell (fst p) (snd p) \<Longrightarrow> visitedAt ?g (fst p) (snd p) \<Longrightarrow> p \<notin> set st \<Longrightarrow>
            neighbourOf p q \<Longrightarrow> isValidCell (fst q) (snd q) \<Longrightarrow> visitedAt ?g (fst q) (snd q)"
    and some: "\<exists>p. isValidCell (fst p) (snd p) \<and> visitedAt ?g (fst p) (snd p)"
    using dfs_invD [OF inv] by blast+
  have top: "isValidCell x y" "visitedAt ?g x y" using stk [of "(x, y)"] st by simp_all
  have "dfs_inv (fst (dfs_step msin s st)) (snd (dfs_step msin s st)) \<and>
        dfs_measure (fst (dfs_step msin s st)) (snd (dfs_step msin s st)) < dfs_measure s st"
  proof (cases "?ns = []")
    case True
    then have step: "dfs_step msin s st = (s, rest)" by (simp add: dfs_step_def st)
    have "visitedAt ?g (fst q) (snd q)"
      if "isValidCell (fst p) (snd p)" "visitedAt ?g (fst p) (snd p)" "p \<notin> set rest"
         "neighbourOf p q" "isValidCell (fst q) (snd q)" for p q
    proof (cases "p = (x, y)")
      case True
      then show ?thesis using unvisitedNeighbors_empty [OF wf \<open>?ns = []\<close>, of q] that by simp
    next
      case False
      then have "p \<notin> set st" using that(3) st by simp
      then show ?thesis using closed that by blast
    qed
    moreover have "\<And>p. p \<in> set rest \<Longrightarrow> isValidCell (fst p) (snd p) \<and> visitedAt ?g (fst p) (snd p)"
      using stk st by simp
    ultimately have "dfs_inv s rest" using wf ex some by (intro dfs_invI) blast+
    then have "dfs_inv (fst (dfs_step msin s st)) (snd (dfs_step msin s st))"
      by (simp add: step)
    moreover have "dfs_measure (fst (dfs_step msin s st)) (snd (dfs_step msin s st)) < dfs_measure s st"
      unfolding step by (simp add: dfs_measure_def st)
    ultimately show ?thesis by blast
  next
    case False
    define n where "n = ?ns ! nat \<lfloor>fst (seedRandom msin s) * of_nat (length ?ns)\<rfloor>"
    define nx where "nx = fst n"
    define ny where "ny = fst (snd n)"
    define dir where "dir = DIRECTIONS ! snd (snd n)"
    define g' where "g' = updCell (removeWallPair ?g x y (wall dir) nx ny (opposite dir)) nx ny markVisited"
    have mem: "n \<in> set ?ns" unfolding n_def by (rule chosen_neighbor(3) [OF False])
    from unvisitedNeighbors_wf [OF wf, THEN iffD1, OF mem]
    have m4: "snd (snd n) < length DIRECTIONS" "nx = x + dir_x (DIRECTIONS ! snd (snd n))"
      "ny = y + dir_y (DIRECTIONS ! snd (snd n))" and unv: "(nx, ny) \<in> unvisited ?g"
      unfolding nx_def ny_def by blast+
    have nb: "neighbourOf (x, y) (nx, ny)"
      unfolding neighbourOf_def using m4 by (intro exI [of _ "snd (snd n)"]) simp
    from unv have nv: "isValidCell nx ny" "\<not> visitedAt ?g nx ny" by (simp_all add: unvisited_def)
    have step: "dfs_step msin s st = (s\<lparr>currentSeed := currentSeed s + 1, grid := g'\<rparr>, (nx, ny) # st)"
      unfolding g'_def dir_def nx_def ny_def n_def using False by (simp add: dfs_step_def st Let_def)
    have pos: "0 \<le> x" "0 \<le> y" "0 \<le> nx" "0 \<le> ny"
      using top(1) nv(1) by (simp_all add: isValidCell_def)
    have some': "cellAt ?g nx ny \<noteq> None" using wf_cellAt [OF wf] nv(1) by simp
    then have some'': "cellAt (removeWallPair ?g x y (wall dir) nx ny (opposite dir)) nx ny \<noteq> None"
      using wf_cellAt [of "removeWallPair ?g x y (wall dir) nx ny (opposite dir)"] wf nv(1) by simp
    have vis: "visitedAt g' a b = (visitedAt ?g a b \<or> (a = nx \<and> b = ny))" for a b
      unfolding g'_def using pos some''
      by (simp add: visitedAt_markVisited visitedAt_removeWallPair)
    have wf': "wf_grid g'" using wf by (simp add: g'_def)
    have closed': "visitedAt g' (fst q) (snd q)"
      if "isValidCell (fst p) (snd p)" "visitedAt g' (fst p) (snd p)" "p \<notin> set ((nx, ny) # st)"
         "neighbourOf p q" "isValidCell (fst q) (snd q)" for p q
    proof -
      have "p \<noteq> (nx, ny)" "p \<notin> set st" using that(3) by auto
      then have "visitedAt ?g (fst p) (snd p)" using that(2) unfolding vis by (cases p) auto
      then have "visitedAt ?g (fst q) (snd q)" using closed that \<open>p \<notin> set st\<close> by blast
      then show ?thesis by (simp add: vis)
    qed
    have stk': "\<And>p. p \<in> set ((nx, ny) # st) \<Longrightarrow> isValidCell (fst p) (snd p) \<and> visitedAt g' (fst p) (snd p)"
      using stk nv(1) unfolding vis by auto
    have some2: "\<exists>p. isValidCell (fst p) (snd p) \<and> visitedAt g' (fst p) (snd p)"
      using some unfolding vis by blast
    let ?s' = "s\<lparr>currentSeed := currentSeed s + 1, grid := g'\<rparr>"
    have gs: "grid ?s' = g'" "exit ?s' = exit s" by simp_all
    have "dfs_inv ?s' ((nx, ny) # st)"
    proof (rule dfs_invI)
      show "wf_grid (grid ?s')" unfolding gs by (rule wf')
      show "isValidCell (fst (exit ?s')) (snd (exit ?s'))" unfolding gs by (rule ex)
      show "\<And>p. p \<in> set ((nx, ny) # st) \<Longrightarrow>
              isValidCell (fst p) (snd p) \<and> visitedAt (grid ?s') (fst p) (snd p)"
        unfolding gs by (rule stk')
      show "\<And>p q. isValidCell (fst p) (snd p) \<Longrightarrow> visitedAt (grid ?s') (fst p) (snd p) \<Longrightarrow>
              p \<notin> set ((nx, ny) # st) \<Longrightarrow> neighbourOf p q \<Longrightarrow> isValidCell (fst q) (snd q) \<Longrightarrow>
              visitedAt (grid ?s') (fst q) (snd q)"
        unfolding gs by (rule closed')
      show "\<exists>p. isValidCell (fst p) (snd p) \<and> visitedAt (grid ?s') (fst p) (snd p)"
        unfolding gs by (rule some2)
    qed
    then have A: "dfs_inv (fst (dfs_step msin s st)) (snd (dfs_step msin s st))"
      by (simp add: step)
    have "unvisited g' = unvisited ?g - {(nx, ny)}"
      by (auto simp: unvisited_def vis)
    then have "card (unvisited g') < card (unvisited ?g)"
      using card_Diff1_less [OF finite_unvisited unv] by (simp only:)
    then have "dfs_measure (fst (dfs_step msin s st)) (snd (dfs_step msin s st)) < dfs_measure s st"
      unfolding step by (simp add: dfs_measure_def)
    with A show ?thesis by blast
  qed
  then show "dfs_inv (fst (dfs_step msin s st)) (snd (dfs_step msin s st))"
    and "dfs_measure (fst (dfs_step msin s st)) (snd (dfs_step msin s st)) < dfs_measure s st" by blast+
qed

lemma dfs_iter_eq_step:
  assumes inv: "dfs_inv s st" and ne: "st \<noteq> []"
  shows "dfs_iter msin s st = dfs_step msin s st"
proof -
  let ?x = "fst (hd st)" and ?y = "snd (hd st)"
  let ?ns = "unvisitedNeighbors (grid s) ?x ?y"
  have wf: "wf_grid (grid s)" by (rule dfs_invD(1) [OF inv])
  have top: "isValidCell ?x ?y" using dfs_invD(3) [OF inv, of "hd st"] ne by simp
  show ?thesis
  proof (cases "?ns = []")
    case True
    have "repairCheck s (tl st) = s"
    proof (cases "tl st = []")
      case True
      have "dfs_inv (fst (dfs_step msin s st)) (snd (dfs_step msin s st))"
        by (rule dfs_step_inv(1) [OF inv ne])
      then have "dfs_inv s []" using \<open>?ns = []\<close> True by (simp add: dfs_step_def)
      then have "hasPathToExit s"
        using dfs_inv_all_visited [of s "fst (exit s)" "snd (exit s)"] dfs_invD(2) [of s "[]"]
        by (simp add: hasPathToExit_visitedAt)
      then show ?thesis by (simp add: repairCheck_def)
    next
      case False
      then have "length (tl st) \<noteq> 0" by (simp del: length_tl)
      then show ?thesis unfolding repairCheck_def by (simp del: length_tl)
    qed
    then show ?thesis using True by (simp add: dfs_iter_def dfs_step_def)
  next
    case False
    define n where "n = ?ns ! nat \<lfloor>fst (seedRandom msin s) * of_nat (length ?ns)\<rfloor>"
    have mem: "n \<in> set ?ns" unfolding n_def by (rule chosen_neighbor(3) [OF False])
    then have nv: "isValidCell (fst n) (fst (snd n))"
      unfolding unvisitedNeighbors_mem by blast
    have c1: "cellAt (grid s) ?x ?y \<noteq> None" "cellAt (grid s) (fst n) (fst (snd n)) \<noteq> None"
      using wf_cellAt [OF wf] top nv by simp_all
    have idx: "0 \<le> \<lfloor>fst (seedRandom msin s) * of_nat (length ?ns)\<rfloor>"
       "\<lfloor>fst (seedRandom msin s) * of_nat (length ?ns)\<rfloor> < int (length ?ns)"
      by (rule chosen_neighbor [OF False])+
    show ?thesis
      using False idx c1 unfolding n_def
      by (simp add: dfs_iter_def dfs_step_def Let_def repairCheck_def)
  qed
qed

lemma dfs_loop_rule:
  assumes "I s st"
    and inv: "\<And>s st. I s st \<Longrightarrow> dfs_inv s st"
    and step: "\<And>s st. I s st \<Longrightarrow> st \<noteq> [] \<Longrightarrow> I (fst (dfs_step msin s st)) (snd (dfs_step msin s st))"
  shows "\<exists>s'. dfs_loop msin s st = Some s' \<and> I s' []"
  using assms(1)
proof (induction "dfs_measure s st" arbitrary: s st rule: less_induct)
  case less
  show ?case
  proof (cases "st = []")
    case True
    then show ?thesis using less.prems by (subst dfs_loop.simps) simp
  next
    case False
    have eq: "dfs_iter msin s st = dfs_step msin s st"
      by (rule dfs_iter_eq_step [OF inv [OF less.prems] False])
    have "dfs_measure (fst (dfs_step msin s st)) (snd (dfs_step msin s st)) < dfs_measure s st"
      by (rule dfs_step_inv(2) [OF inv [OF less.prems] False])
    from less.hyps [OF this step [OF less.prems False]]
    show ?thesis using False by (subst dfs_loop.simps) (simp add: eq)
  qed
qed

lemma fst_seedRandom_seed:
  "currentSeed s = currentSeed t \<Longrightarrow> fst (seedRandom msin s) = fst (seedRandom msin t)"
  by (simp add: seedRandom_def Let_def)

lemma floor_draw_int_range:
  assumes "0 < n"
  shows "0 \<le> \<lfloor>fst (seedRandom msin s) * of_int n\<rfloor>" "\<lfloor>fst (seedRandom msin s) * of_int n\<rfloor> < n"
proof -
  have "0 < nat n" using assms by simp
  from floor_draw_range [OF _ _ this, of "fst (seedRandom msin s)"] seedRandom_range [of msin s]
  show "0 \<le> \<lfloor>fst (seedRandom msin s) * of_int n\<rfloor>" "\<lfloor>fst (seedRandom msin s) * of_int n\<rfloor> < n"
    using assms by simp_all
qed

lemma addExtraConnections_iter_eq:
  fixes msin :: "real \<Rightarrow> real" and s :: maze
  assumes wf: "wf_grid (grid s)"
  defines "x \<equiv> \<lfloor>fst (seedRandom msin s) * of_int MAZE_SIZE\<rfloor>"
      and "y \<equiv> \<lfloor>fst (seedRandom msin (snd (seedRandom msin s))) * of_int MAZE_SIZE\<rfloor>"
      and "i \<equiv> \<lfloor>fst (seedRandom msin (snd (seedRandom msin (snd (seedRandom msin s))))) * of_nat (length DIRECTIONS)\<rfloor>"
  shows "isValidCell x y" "0 \<le> i" "i < 4"
    and "addExtraConnections_iter msin s =
          s\<lparr>currentSeed := currentSeed s + 3,
            grid := (if isValidCell (x + dir_x (DIRECTIONS ! nat i)) (y + dir_y (DIRECTIONS ! nat i))
                     then removeWallPair (grid s) x y (wall (DIRECTIONS ! nat i))
                            (x + dir_x (DIRECTIONS ! nat i)) (y + dir_y (DIRECTIONS ! nat i))
                            (opposite (DIRECTIONS ! nat i))
                     else grid s)\<rparr>"
proof -
  have m: "0 < MAZE_SIZE" by (simp add: MAZE_SIZE_def)
  show v: "isValidCell x y"
    unfolding isValidCell_def x_def y_def using floor_draw_int_range [OF m] by blast
  have "(0::nat) < length DIRECTIONS" by simp
  from floor_draw_range [OF _ _ this] seedRandom_range
  have i: "0 \<le> i \<and> i < int (length DIRECTIONS)" unfolding i_def by blast
  then show "0 \<le> i" "i < 4" by simp_all
  have c: "cellAt (grid s) x y \<noteq> None" using wf_cellAt [OF wf] v by simp
  have c2: "isValidCell a b \<Longrightarrow> cellAt (grid s) a b \<noteq> None" for a b using wf_cellAt [OF wf] by simp
  have g: "grid (snd (seedRandom msin (snd (seedRandom msin (snd (seedRandom msin s)))))) = grid s"
    by simp
  have "addExtraConnections_iter msin s =
        (let dir = DIRECTIONS ! nat i; nextX = x + dir_x dir; nextY = y + dir_y dir;
             s3 = snd (seedRandom msin (snd (seedRandom msin (snd (seedRandom msin s)))))
         in if isValidCell nextX nextY then
              s3\<lparr>grid := removeWallPair (grid s3) x y (wall dir) nextX nextY (opposite dir)\<rparr>
            else s3)"
    unfolding addExtraConnections_iter_def x_def [symmetric] 
    using v i c c2 g
    by (simp add: Let_def x_def [symmetric] y_def [symmetric] i_def [symmetric] del: snd_seedRandom length_DIRECTIONS)
  then show "addExtraConnections_iter msin s =
          s\<lparr>currentSeed := currentSeed s + 3,
            grid := (if isValidCell (x + dir_x (DIRECTIONS ! nat i)) (y + dir_y (DIRECTIONS ! nat i))
                     then removeWallPair (grid s) x y (wall (DIRECTIONS ! nat i))
                            (x + dir_x (DIRECTIONS ! nat i)) (y + dir_y (DIRECTIONS ! nat i))
                            (opposite (DIRECTIONS ! nat i))
                     else grid s)\<rparr>"
    by (simp add: Let_def)
qed

lemma connectionsToAdd_250: "connectionsToAdd = 250"
  by (simp add: connectionsToAdd_def MAZE_SIZE_def)

lemma addExtraConnections_loop_funpow:
  "addExtraConnections_loop msin i s = (addExtraConnections_iter msin ^^ nat (connectionsToAdd - i)) s"
proof (induction msin i s rule: addExtraConnections_loop.induct)
  case (1 msin i s)
  show ?case
  proof (cases "i < connectionsToAdd")
    case True
    then have n: "nat (connectionsToAdd - i) = Suc (nat (connectionsToAdd - (i + 1)))" by simp
    show ?thesis
      using True "1.IH" [OF True]
      by (subst addExtraConnections_loop.simps) (simp add: n funpow_Suc_right del: funpow.simps)
  next
    case False
    then show ?thesis by (subst addExtraConnections_loop.simps) simp
  qed
qed

lemma addExtraConnections_funpow:
  "addExtraConnections msin s = (addExtraConnections_iter msin ^^ 250) s"
  by (simp add: addExtraConnections_def addExtraConnections_loop_funpow connectionsToAdd_250)

lemma addExtraConnections_iter_props:
  assumes wf: "wf_grid (grid s)"
  shows "wf_grid (grid (addExtraConnections_iter msin s))"
    and "currentSeed (addExtraConnections_iter msin s) = currentSeed s + 3"
    and "entrance (addExtraConnections_iter msin s) = entrance s"
    and "exit (addExtraConnections_iter msin s) = exit s"
    and "entranceWorldPosition (addExtraConnections_iter msin s) = entranceWorldPosition s"
    and "visitedAt (grid (addExtraConnections_iter msin s)) a b = visitedAt (grid s) a b"
    and "wallAt (grid (addExtraConnections_iter msin s)) a b w \<Longrightarrow> wallAt (grid s) a b w"
proof -
  note eq = addExtraConnections_iter_eq [OF wf, of msin]
  from eq(1) have pos: "0 \<le> \<lfloor>fst (seedRandom msin s) * of_int MAZE_SIZE\<rfloor>"
      "0 \<le> \<lfloor>fst (seedRandom msin (snd (seedRandom msin s))) * of_int MAZE_SIZE\<rfloor>"
    by (simp_all add: isValidCell_def)
  show "wf_grid (grid (addExtraConnections_iter msin s))" using wf by (simp add: eq(4))
  show "currentSeed (addExtraConnections_iter msin s) = currentSeed s + 3" by (simp add: eq(4))
  show "entrance (addExtraConnections_iter msin s) = entrance s" by (simp add: eq(4))
  show "exit (addExtraConnections_iter msin s) = exit s" by (simp add: eq(4))
  show "entranceWorldPosition (addExtraConnections_iter msin s) = entranceWorldPosition s" by (simp add: eq(4))
  show "visitedAt (grid (addExtraConnections_iter msin s)) a b = visitedAt (grid s) a b"
    using pos by (simp add: eq(4) visitedAt_removeWallPair isValidCell_def)
  show "wallAt (grid (addExtraConnections_iter msin s)) a b w \<Longrightarrow> wallAt (grid s) a b w"
    using pos by (simp add: eq(4) wallAt_removeWallPair isValidCell_def split: if_splits)
qed

lemma addExtraConnections_pow_props:
  assumes wf: "wf_grid (grid s)"
  shows "wf_grid (grid ((addExtraConnections_iter msin ^^ n) s)) \<and>
         currentSeed ((addExtraConnections_iter msin ^^ n) s) = currentSeed s + 3 * int n \<and>
         entrance ((addExtraConnections_iter msin ^^ n) s) = entrance s \<and>
         exit ((addExtraConnections_iter msin ^^ n) s) = exit s \<and>
         entranceWorldPosition ((addExtraConnections_iter msin ^^ n) s) = entranceWorldPosition s \<and>
         (\<forall>a b. visitedAt (grid ((addExtraConnections_iter msin ^^ n) s)) a b = visitedAt (grid s) a b) \<and>
         (\<forall>a b w. wallAt (grid ((addExtraConnections_iter msin ^^ n) s)) a b w \<longrightarrow> wallAt (grid s) a b w)"
proof (induction n)
  case 0
  then show ?case using wf by simp
next
  case (Suc n)
  let ?t = "(addExtraConnections_iter msin ^^ n) s"
  from Suc have wft: "wf_grid (grid ?t)" by blast
  note p = addExtraConnections_iter_props [OF wft, of msin]
  have s: "(addExtraConnections_iter msin ^^ Suc n) s = addExtraConnections_iter msin ?t" by simp
  show ?case unfolding s
  proof (intro conjI allI impI)
    show "wf_grid (grid (addExtraConnections_iter msin ?t))" by (rule p(1))
    show "currentSeed (addExtraConnections_iter msin ?t) = currentSeed s + 3 * int (Suc n)"
      using Suc by (simp add: p(2))
    show "entrance (addExtraConnections_iter msin ?t) = entrance s" using Suc by (simp add: p(3))
    show "exit (addExtraConnections_iter msin ?t) = exit s" using Suc by (simp add: p(4))
    show "entranceWorldPosition (addExtraConnections_iter msin ?t) = entranceWorldPosition s"
      using Suc by (simp add: p(5))
    show "visitedAt (grid (addExtraConnections_iter msin ?t)) a b = visitedAt (grid s) a b" for a b
      using Suc by (simp add: p(6))
    show "wallAt (grid s) a b w" if "wallAt (grid (addExtraConnections_iter msin ?t)) a b w" for a b w
      using Suc p(7) [OF that] by blast
  qed
qed

lemma dfs_step_cases:
  assumes inv: "dfs_inv s st" and ne: "st \<noteq> []"
  shows "dfs_step msin s st = (s, tl st) \<or>
         (\<exists>nx ny w w'. isValidCell nx ny \<and>
            dfs_step msin s st =
              (s\<lparr>currentSeed := currentSeed s + 1,
                 grid := updCell (removeWallPair (grid s) (fst (hd st)) (snd (hd st)) w nx ny w') nx ny markVisited\<rparr>,
               (nx, ny) # st))"
proof (cases "unvisitedNeighbors (grid s) (fst (hd st)) (snd (hd st)) = []")
  case True
  then show ?thesis by (simp add: dfs_step_def)
next
  case False
  let ?ns = "unvisitedNeighbors (grid s) (fst (hd st)) (snd (hd st))"
  define n where "n = ?ns ! nat \<lfloor>fst (seedRandom msin s) * of_nat (length ?ns)\<rfloor>"
  have mem: "n \<in> set ?ns" unfolding n_def by (rule chosen_neighbor(3) [OF False])
  then have nv: "isValidCell (fst n) (fst (snd n))"
    unfolding unvisitedNeighbors_mem by blast
  have "dfs_step msin s st =
              (s\<lparr>currentSeed := currentSeed s + 1,
                 grid := updCell (removeWallPair (grid s) (fst (hd st)) (snd (hd st)) (wall (DIRECTIONS ! snd (snd n)))
                      (fst n) (fst (snd n)) (opposite (DIRECTIONS ! snd (snd n)))) (fst n) (fst (snd n)) markVisited\<rparr>,
               (fst n, fst (snd n)) # st)"
    unfolding n_def using False by (simp add: dfs_step_def Let_def)
  with nv show ?thesis by blast
qed

lemma dfs_step_carve_inv:
  assumes ci: "carve_inv p0 s st" and ne: "st \<noteq> []"
  shows "carve_inv p0 (fst (dfs_step msin s st)) (snd (dfs_step msin s st))"
proof -
  from ci have inv: "dfs_inv s st" by (simp add: carve_inv_def)
  have top: "isValidCell (fst (hd st)) (snd (hd st))" using dfs_invD(3) [OF inv, of "hd st"] ne by simp
  note i' = dfs_step_inv(1) [OF inv ne, of msin]
  from dfs_step_cases [OF inv ne, of msin] show ?thesis
  proof (elim disjE exE conjE)
    assume "dfs_step msin s st = (s, tl st)"
    then show ?thesis using ci i' by (simp add: carve_inv_def)
  next
    fix nx ny w w'
    assume v: "isValidCell nx ny"
      and eq: "dfs_step msin s st =
              (s\<lparr>currentSeed := currentSeed s + 1,
                 grid := updCell (removeWallPair (grid s) (fst (hd st)) (snd (hd st)) w nx ny w') nx ny markVisited\<rparr>,
               (nx, ny) # st)"
    have pos: "0 \<le> nx" "0 \<le> ny" "0 \<le> fst (hd st)" "0 \<le> snd (hd st)"
      using v top by (simp_all add: isValidCell_def)
    have "\<not> wallAt (updCell (removeWallPair (grid s) (fst (hd st)) (snd (hd st)) w nx ny w') nx ny markVisited)
              (MAZE_SIZE div 2) 0 Top"
      using ci pos by (simp add: carve_inv_def wallAt_markVisited wallAt_removeWallPair)
    then show ?thesis using ci i' by (simp add: carve_inv_def eq)
  qed
qed

lemma dfs_loop_carve:
  assumes "carve_inv p0 s st"
  shows "\<exists>s'. dfs_loop msin s st = Some s' \<and> carve_inv p0 s' []"
proof (rule dfs_loop_rule [where I = "carve_inv p0", OF assms])
  show "\<And>s st. carve_inv p0 s st \<Longrightarrow> dfs_inv s st" by (simp add: carve_inv_def)
  show "\<And>s st. carve_inv p0 s st \<Longrightarrow> st \<noteq> [] \<Longrightarrow>
          carve_inv p0 (fst (dfs_step msin s st)) (snd (dfs_step msin s st))"
    by (rule dfs_step_carve_inv)
qed

text \<open>Two runs of the carving loop from states that differ in the cached position only.\<close>

lemma dfs_inv_ewp [simp]: "dfs_inv (s\<lparr>entranceWorldPosition := p\<rparr>) st = dfs_inv s st"
  by (simp add: dfs_inv_def)

lemma dfs_measure_ewp [simp]: "dfs_measure (s\<lparr>entranceWorldPosition := p\<rparr>) st = dfs_measure s st"
  by (simp add: dfs_measure_def)

lemma dfs_step_ewp:
  "dfs_step msin (s\<lparr>entranceWorldPosition := p\<rparr>) st =
     ((fst (dfs_step msin s st))\<lparr>entranceWorldPosition := p\<rparr>, snd (dfs_step msin s st))"
proof -
  have "fst (seedRandom msin (s\<lparr>entranceWorldPosition := p\<rparr>)) = fst (seedRandom msin s)"
    by (rule fst_seedRandom_seed) simp
  then show ?thesis by (simp add: dfs_step_def Let_def)
qed

lemma dfs_loop_ewp:
  assumes "dfs_inv s st"
  shows "dfs_loop msin (s\<lparr>entranceWorldPosition := p\<rparr>) st =
           map_option (\<lambda>r. r\<lparr>entranceWorldPosition := p\<rparr>) (dfs_loop msin s st)"
  using assms
proof (induction "dfs_measure s st" arbitrary: s st rule: less_induct)
  case less
  show ?case
  proof (cases "st = []")
    case True
    then show ?thesis by (subst (1 2) dfs_loop.simps) simp
  next
    case False
    have inv': "dfs_inv (s\<lparr>entranceWorldPosition := p\<rparr>) st" using less.prems by simp
    have e1: "dfs_iter msin s st = dfs_step msin s st"
      by (rule dfs_iter_eq_step [OF less.prems False])
    have e2: "dfs_iter msin (s\<lparr>entranceWorldPosition := p\<rparr>) st =
              ((fst (dfs_step msin s st))\<lparr>entranceWorldPosition := p\<rparr>, snd (dfs_step msin s st))"
      using dfs_iter_eq_step [OF inv' False, of msin] by (simp add: dfs_step_ewp)
    have m: "dfs_measure (fst (dfs_step msin s st)) (snd (dfs_step msin s st)) < dfs_measure s st"
      by (rule dfs_step_inv(2) [OF less.prems False])
    have i: "dfs_inv (fst (dfs_step msin s st)) (snd (dfs_step msin s st))"
      by (rule dfs_step_inv(1) [OF less.prems False])
    have l: "dfs_loop msin s st = dfs_loop msin (fst (dfs_step msin s st)) (snd (dfs_step msin s st))"
      using False by (subst dfs_loop.simps) (simp add: e1)
    have r: "dfs_loop msin (s\<lparr>entranceWorldPosition := p\<rparr>) st =
             dfs_loop msin ((fst (dfs_step msin s st))\<lparr>entranceWorldPosition := p\<rparr>) (snd (dfs_step msin s st))"
      using False by (subst dfs_loop.simps) (simp add: e2)
    show ?thesis unfolding l r by (rule less.hyps [OF m i])
  qed
qed

lemma openWall_eq:
  assumes "wf_grid (grid s)" "isValidCell cx cy"
  shows "openWall s cx cy w = s\<lparr>grid := updCell (grid s) cx cy (removeWall w)\<rparr>"
proof -
  from wf_cellAt_Some [OF assms] obtain c where "cellAt (grid s) cx cy = Some c" by blast
  then show ?thesis using assms(2) by (simp add: openWall_def isValidCell_def)
qed

lemma openWall_ewp:
  "openWall (s\<lparr>entranceWorldPosition := p\<rparr>) cx cy w = (openWall s cx cy w)\<lparr>entranceWorldPosition := p\<rparr>"
  by (simp add: openWall_def split: option.splits)

lemma valid_start: "isValidCell (MAZE_SIZE div 2) 0"
  by (simp add: isValidCell_def MAZE_SIZE_def)

lemma valid_exit: "isValidCell (MAZE_SIZE div 2) (MAZE_SIZE - 1)"
  by (simp add: isValidCell_def MAZE_SIZE_def)

lemma start_state_eq:
  "start_state s =
     s\<lparr>currentSeed := FIXED_SEED, entrance := (MAZE_SIZE div 2, 0),
       grid := updCell initializeGrid (MAZE_SIZE div 2) 0 (removeWall Top),
       exit := (MAZE_SIZE div 2, MAZE_SIZE - 1)\<rparr>"
  unfolding start_state_def by (subst openWall_eq) (simp_all add: valid_start)

lemma generateMaze_unfold:
  "generateMaze msin s =
     (case depthFirstSearch msin (start_state s) (MAZE_SIZE div 2) 0 of
        None \<Rightarrow> None
      | Some s6 \<Rightarrow> Some (addExtraConnections msin (openWall s6 (MAZE_SIZE div 2) (MAZE_SIZE - 1) Bottom)))"
  by (simp add: generateMaze_def start_state_def Let_def)

lemma depthFirstSearch_start:
  "depthFirstSearch msin (start_state s) (MAZE_SIZE div 2) 0 =
     dfs_loop msin (carve_start s) [(MAZE_SIZE div 2, 0)]"
proof -
  have "wf_grid (grid (start_state s))" by (simp add: start_state_eq)
  from wf_cellAt_Some [OF this valid_start] obtain c
    where "cellAt (grid (start_state s)) (MAZE_SIZE div 2) 0 = Some c" by blast
  then show ?thesis by (simp add: depthFirstSearch_def valid_start carve_start_def)
qed

lemma visitedAt_initializeGrid [simp]: "\<not> visitedAt initializeGrid x y"
proof (cases "isValidCell x y")
  case True
  then show ?thesis by (simp add: visitedAt_def cellAt_initializeGrid)
next
  case False
  then have "cellAt initializeGrid x y = None" using wf_cellAt [OF wf_initializeGrid, of x y] by simp
  then show ?thesis by (simp add: visitedAt_def)
qed

lemma grid_carve_start:
  "grid (carve_start s) =
     updCell (updCell initializeGrid (MAZE_SIZE div 2) 0 (removeWall Top)) (MAZE_SIZE div 2) 0 markVisited"
  by (simp add: carve_start_def start_state_eq)

lemma visitedAt_carve_start:
  "visitedAt (grid (carve_start s)) a b = (a = MAZE_SIZE div 2 \<and> b = 0)"
proof -
  have p: "(0::int) \<le> MAZE_SIZE div 2" by (simp add: MAZE_SIZE_def)
  have "cellAt (updCell initializeGrid (MAZE_SIZE div 2) 0 (removeWall Top)) (MAZE_SIZE div 2) 0 \<noteq> None"
    using wf_cellAt [of "updCell initializeGrid (MAZE_SIZE div 2) 0 (removeWall Top)"] valid_start by simp
  then show ?thesis
    using p by (simp add: grid_carve_start visitedAt_markVisited visitedAt_removeWall)
qed

lemma carve_inv_start: "carve_inv (entranceWorldPosition s) (carve_start s) [(MAZE_SIZE div 2, 0)]"
proof -
  have p: "(0::int) \<le> MAZE_SIZE div 2" by (simp add: MAZE_SIZE_def)
  have "dfs_inv (carve_start s) [(MAZE_SIZE div 2, 0)]"
  proof (rule dfs_invI)
    show "wf_grid (grid (carve_start s))" by (simp add: grid_carve_start)
    show "isValidCell (fst (exit (carve_start s))) (snd (exit (carve_start s)))"
      by (simp add: carve_start_def start_state_eq valid_exit)
    show "\<And>p. p \<in> set [(MAZE_SIZE div 2, 0)] \<Longrightarrow>
           isValidCell (fst p) (snd p) \<and> visitedAt (grid (carve_start s)) (fst p) (snd p)"
      by (simp add: visitedAt_carve_start valid_start)
    show "\<And>p q. isValidCell (fst p) (snd p) \<Longrightarrow> visitedAt (grid (carve_start s)) (fst p) (snd p) \<Longrightarrow>
            p \<notin> set [(MAZE_SIZE div 2, 0)] \<Longrightarrow> neighbourOf p q \<Longrightarrow> isValidCell (fst q) (snd q) \<Longrightarrow>
            visitedAt (grid (carve_start s)) (fst q) (snd q)"
      by (simp add: visitedAt_carve_start prod_eq_iff)
    show "\<exists>p. isValidCell (fst p) (snd p) \<and> visitedAt (grid (carve_start s)) (fst p) (snd p)"
      by (rule exI [of _ "(MAZE_SIZE div 2, 0)"]) (simp add: visitedAt_carve_start valid_start)
  qed
  moreover have "\<not> wallAt (grid (carve_start s)) (MAZE_SIZE div 2) 0 Top"
    using p by (simp add: grid_carve_start wallAt_markVisited wallAt_removeWall)
  ultimately show ?thesis
    by (simp add: carve_inv_def) (simp add: carve_start_def start_state_eq)
qed

lemma generateMaze_result:
  "\<exists>s6 s'. dfs_loop msin (carve_start s) [(MAZE_SIZE div 2, 0)] = Some s6 \<and>
      carve_inv (entranceWorldPosition s) s6 [] \<and>
      s' = addExtraConnections msin (openWall s6 (MAZE_SIZE div 2) (MAZE_SIZE - 1) Bottom) \<and>
      generateMaze msin s = Some s' \<and>
      wf_grid (grid s') \<and>
      (\<forall>x y. isValidCell x y \<longrightarrow> visitedAt (grid s') x y) \<and>
      entrance s' = (MAZE_SIZE div 2, 0) \<and> exit s' = (MAZE_SIZE div 2, MAZE_SIZE - 1) \<and>
      entranceWorldPosition s' = entranceWorldPosition s \<and>
      \<not> wallAt (grid s') (MAZE_SIZE div 2) 0 Top \<and>
      \<not> wallAt (grid s') (MAZE_SIZE div 2) (MAZE_SIZE - 1) Bottom"
proof -
  from dfs_loop_carve [OF carve_inv_start, of msin s] obtain s6
    where l: "dfs_loop msin (carve_start s) [(MAZE_SIZE div 2, 0)] = Some s6"
      and ci: "carve_inv (entranceWorldPosition s) s6 []" by blast
  from ci have inv: "dfs_inv s6 []" and e: "entrance s6 = (MAZE_SIZE div 2, 0)"
    "exit s6 = (MAZE_SIZE div 2, MAZE_SIZE - 1)" "entranceWorldPosition s6 = entranceWorldPosition s"
    and top: "\<not> wallAt (grid s6) (MAZE_SIZE div 2) 0 Top"
    by (simp_all add: carve_inv_def)
  have wf6: "wf_grid (grid s6)" by (rule dfs_invD(1) [OF inv])
  define s7 where "s7 = openWall s6 (MAZE_SIZE div 2) (MAZE_SIZE - 1) Bottom"
  have s7: "s7 = s6\<lparr>grid := updCell (grid s6) (MAZE_SIZE div 2) (MAZE_SIZE - 1) (removeWall Bottom)\<rparr>"
    unfolding s7_def by (rule openWall_eq [OF wf6 valid_exit])
  have p: "(0::int) \<le> MAZE_SIZE div 2" "(0::int) \<le> MAZE_SIZE - 1" by (simp_all add: MAZE_SIZE_def)
  have wf7: "wf_grid (grid s7)" using wf6 by (simp add: s7)
  have v7: "visitedAt (grid s7) x y = visitedAt (grid s6) x y" for x y
    using p by (simp add: s7 visitedAt_removeWall)
  have w7: "wallAt (grid s7) a b w = (wallAt (grid s6) a b w \<and> \<not> (a = MAZE_SIZE div 2 \<and> b = MAZE_SIZE - 1 \<and> w = Bottom))"
    for a b w using p by (simp add: s7 wallAt_removeWall)
  define s' where "s' = addExtraConnections msin s7"
  note pw = addExtraConnections_pow_props [OF wf7, where msin = msin and n = 250, folded addExtraConnections_funpow s'_def]
  have g: "generateMaze msin s = Some s'"
    by (simp add: generateMaze_unfold depthFirstSearch_start l s'_def s7_def)
  have vis: "visitedAt (grid s') x y" if "isValidCell x y" for x y
    using pw v7 dfs_inv_all_visited [OF inv that] by simp
  have walls: "\<not> wallAt (grid s') (MAZE_SIZE div 2) 0 Top" "\<not> wallAt (grid s') (MAZE_SIZE div 2) (MAZE_SIZE - 1) Bottom"
    using pw w7 top by blast+
  have fr: "entrance s' = (MAZE_SIZE div 2, 0)" "exit s' = (MAZE_SIZE div 2, MAZE_SIZE - 1)"
      "entranceWorldPosition s' = entranceWorldPosition s" "wf_grid (grid s')"
    using pw e by (simp_all add: s7)
  show ?thesis
    using l ci g vis walls fr unfolding s'_def s7_def by blast
qed

lemma seedRandom_ewp:
  "seedRandom msin (s\<lparr>entranceWorldPosition := p\<rparr>) =
     (fst (seedRandom msin s), (snd (seedRandom msin s))\<lparr>entranceWorldPosition := p\<rparr>)"
  by (simp add: seedRandom_def Let_def)

lemma addExtraConnections_iter_ewp:
  "addExtraConnections_iter msin (s\<lparr>entranceWorldPosition := p\<rparr>) =
     (addExtraConnections_iter msin s)\<lparr>entranceWorldPosition := p\<rparr>"
  unfolding addExtraConnections_iter_def Let_def seedRandom_ewp fst_conv snd_conv
  by (simp del: snd_seedRandom)

lemma addExtraConnections_ewp:
  "addExtraConnections msin (s\<lparr>entranceWorldPosition := p\<rparr>) =
     (addExtraConnections msin s)\<lparr>entranceWorldPosition := p\<rparr>"
proof -
  have "(addExtraConnections_iter msin ^^ n) (s\<lparr>entranceWorldPosition := p\<rparr>) =
        ((addExtraConnections_iter msin ^^ n) s)\<lparr>entranceWorldPosition := p\<rparr>" for n
    by (induction n) (simp_all add: addExtraConnections_iter_ewp)
  then show ?thesis by (simp only: addExtraConnections_funpow)
qed

lemma carve_start_ewp:
  "carve_start s1 = (carve_start s2)\<lparr>entranceWorldPosition := entranceWorldPosition s1\<rparr>"
  by (simp add: carve_start_def start_state_eq)

lemma generateMaze_ewp_only:
  "\<exists>a b. generateMaze msin s1 = Some a \<and> generateMaze msin s2 = Some b \<and>
         a = b\<lparr>entranceWorldPosition := entranceWorldPosition s1\<rparr>"
proof -
  from generateMaze_result [of msin s1] obtain a6 a
    where a: "dfs_loop msin (carve_start s1) [(MAZE_SIZE div 2, 0)] = Some a6"
      "a = addExtraConnections msin (openWall a6 (MAZE_SIZE div 2) (MAZE_SIZE - 1) Bottom)"
      "generateMaze msin s1 = Some a" by blast
  from generateMaze_result [of msin s2] obtain b6 b
    where b: "dfs_loop msin (carve_start s2) [(MAZE_SIZE div 2, 0)] = Some b6"
      "b = addExtraConnections msin (openWall b6 (MAZE_SIZE div 2) (MAZE_SIZE - 1) Bottom)"
      "generateMaze msin s2 = Some b" by blast
  have inv: "dfs_inv (carve_start s2) [(MAZE_SIZE div 2, 0)]"
    using carve_inv_start [of s2] by (simp add: carve_inv_def)
  have "dfs_loop msin (carve_start s1) [(MAZE_SIZE div 2, 0)] =
        map_option (\<lambda>r. r\<lparr>entranceWorldPosition := entranceWorldPosition s1\<rparr>)
          (dfs_loop msin (carve_start s2) [(MAZE_SIZE div 2, 0)])"
    by (subst carve_start_ewp [of s1 s2]) (rule dfs_loop_ewp [OF inv])
  then have "a6 = b6\<lparr>entranceWorldPosition := entranceWorldPosition s1\<rparr>"
    using a(1) b(1) by simp
  then have "a = b\<lparr>entranceWorldPosition := entranceWorldPosition s1\<rparr>"
    by (simp add: a(2) b(2) openWall_ewp addExtraConnections_ewp)
  with a(3) b(3) show ?thesis by blast
qed

text \<open>
  Claim C1. \<open>generateMaze\<close> returns from every state, and two runs from any two states (any grid,
  any value of the seed counter) end with the same grid, hence the same wall flags and visited
  flag in every cell, and with the same entrance, exit and seed counter.
\<close>

theorem generateMaze_deterministic:
  "\<exists>a b. generateMaze msin s1 = Some a \<and> generateMaze msin s2 = Some b \<and>
         grid a = grid b \<and> entrance a = entrance b \<and> exit a = exit b \<and>
         currentSeed a = currentSeed b"
proof -
  from generateMaze_ewp_only [of msin s1 s2] obtain a b
    where "generateMaze msin s1 = Some a" "generateMaze msin s2 = Some b"
      "a = b\<lparr>entranceWorldPosition := entranceWorldPosition s1\<rparr>" by blast
  then show ?thesis by (intro exI [of _ a] exI [of _ b]) simp
qed

text \<open>
  Claim C2. \<open>generateMaze\<close> returns, and afterwards each of the \<open>MAZE_SIZE * MAZE_SIZE\<close> cells has
  its visited flag set, whatever values the seeded stream yields.
\<close>

theorem generateMaze_visits_every_cell:
  "\<exists>s'. generateMaze msin s = Some s' \<and>
        (\<forall>x y. isValidCell x y \<longrightarrow> (\<exists>c. cellAt (grid s') x y = Some c \<and> visited c))"
proof -
  from generateMaze_result [of msin s] obtain s'
    where g: "generateMaze msin s = Some s'"
      and v: "\<And>x y. isValidCell x y \<Longrightarrow> visitedAt (grid s') x y" by blast
  have "\<exists>c. cellAt (grid s') x y = Some c \<and> visited c" if "isValidCell x y" for x y
    using v [OF that] by (simp add: visitedAt_def split: option.splits)
  with g show ?thesis by blast
qed

text \<open>
  Two cells of the maze built from the constructed generator, with the real sine for \<open>Math.sin\<close>.
\<close>

theorem generateMaze_visits_every_cell_witness:
  "\<exists>s'. generateMaze sin newMazeGenerator = Some s' \<and>
        (\<exists>c. cellAt (grid s') 7 31 = Some c \<and> visited c) \<and>
        (\<exists>c. cellAt (grid s') 49 49 = Some c \<and> visited c)"
proof -
  have "isValidCell 7 31" "isValidCell 49 49" by (simp_all add: isValidCell_def MAZE_SIZE_def)
  with generateMaze_visits_every_cell [of sin newMazeGenerator] show ?thesis by blast
qed

text \<open>
  Claim C6. After \<open>generateMaze\<close> the entrance is \<open>(floor (MAZE_SIZE / 2), 0) = (25, 0)\<close> and its top
  wall is absent, and the exit is \<open>(floor (MAZE_SIZE / 2), MAZE_SIZE - 1) = (25, 49)\<close> and its bottom
  wall is absent: the state is the one the whole pipeline leaves, so carving, the exit opening and
  loop injection have not put either wall back.
\<close>

theorem generateMaze_entrance_exit_open:
  "\<exists>s'. generateMaze msin s = Some s' \<and>
        entrance s' = (MAZE_SIZE div 2, 0) \<and> exit s' = (MAZE_SIZE div 2, MAZE_SIZE - 1) \<and>
        entrance s' = (25, 0) \<and> exit s' = (25, 49) \<and>
        (\<exists>c. cellAt (grid s') 25 0 = Some c \<and> \<not> w_top (walls c)) \<and>
        (\<exists>c. cellAt (grid s') 25 49 = Some c \<and> \<not> w_bottom (walls c))"
proof -
  from generateMaze_result [of msin s] obtain s'
    where g: "generateMaze msin s = Some s'" and wf: "wf_grid (grid s')"
      and e: "entrance s' = (MAZE_SIZE div 2, 0)" "exit s' = (MAZE_SIZE div 2, MAZE_SIZE - 1)"
      and w: "\<not> wallAt (grid s') (MAZE_SIZE div 2) 0 Top"
        "\<not> wallAt (grid s') (MAZE_SIZE div 2) (MAZE_SIZE - 1) Bottom" by blast
  have m: "MAZE_SIZE div 2 = 25" "MAZE_SIZE - 1 = 49" by (simp_all add: MAZE_SIZE_def)
  from wf_cellAt_Some [OF wf valid_start] obtain c1 where c1: "cellAt (grid s') 25 0 = Some c1"
    unfolding m by blast
  from wf_cellAt_Some [OF wf valid_exit] obtain c2 where c2: "cellAt (grid s') 25 49 = Some c2"
    unfolding m by blast
  have "\<not> w_top (walls c1)" "\<not> w_bottom (walls c2)"
    using w c1 c2 unfolding m by (simp_all add: wallAt_def)
  with g e c1 c2 show ?thesis unfolding m by simp
qed

lemma built_maze:
  "\<exists>s'. generateMaze msin s = Some s' \<and> wf_grid (grid s') \<and>
     (\<forall>x y. isValidCell x y \<longrightarrow> visitedAt (grid s') x y) \<and>
     entrance s' = (25, 0) \<and> exit s' = (25, 49) \<and>
     entranceWorldPosition s' = entranceWorldPosition s"
proof -
  have m: "MAZE_SIZE div 2 = 25" "MAZE_SIZE - 1 = 49" by (simp_all add: MAZE_SIZE_def)
  from generateMaze_result [of msin s] show ?thesis unfolding m by blast
qed

text \<open>
  The cases of C4 on the maze built from the constructed generator, with the real sine for
  \<open>Math.sin\<close>: a point on the entrance platform, a point in the entrance cell, and a point left of
  the grid.
\<close>

theorem isWalkablePath_agrees_with_visited_witness:
  "\<exists>s'. generateMaze sin newMazeGenerator = Some s' \<and>
        isWalkablePath s' 0 0 (-1) \<and> isWalkablePath s' 102 1 2 \<and> \<not> isWalkablePath s' (-3) 0 2"
proof -
  from built_maze [of sin newMazeGenerator] obtain s' where s': "generateMaze sin newMazeGenerator = Some s'"
    "\<And>x y. isValidCell x y \<Longrightarrow> visitedAt (grid s') x y" by blast
  have f: "\<lfloor>(102::real) / of_int PATH_WIDTH\<rfloor> = 25" "\<lfloor>(2::real) / of_int PATH_WIDTH\<rfloor> = 0"
    "\<lfloor>(-3::real) / of_int PATH_WIDTH\<rfloor> = -1"
    by (simp_all add: PATH_WIDTH_def)
  have v: "isValidCell 25 0" "\<not> isValidCell (-1) 0" by (simp_all add: isValidCell_def MAZE_SIZE_def)
  have r: "\<not> ((2::real) < 0 \<or> (2::real) \<ge> of_int (MAZE_SIZE * PATH_WIDTH))"
    "(-1::real) < 0 \<or> (-1::real) \<ge> of_int (MAZE_SIZE * PATH_WIDTH)"
    by (simp_all add: MAZE_SIZE_def PATH_WIDTH_def)
  have "isWalkablePath s' 0 0 (-1)"
    using isWalkablePath_agrees_with_visited [of "-1" s' 0 0] r(2) by blast
  moreover have "isWalkablePath s' 102 1 2"
    using isWalkablePath_agrees_with_visited [of 2 s' 102 1] r(1) s'(2) [OF v(1)] v(1) unfolding f by blast
  moreover have "\<not> isWalkablePath s' (-3) 0 2"
    using isWalkablePath_agrees_with_visited [of 2 s' "-3" 0] r(1) v(2) unfolding f by blast
  ultimately show ?thesis using s'(1) by blast
qed

text \<open>
  C5 on the built maze with radius 3: the cell \<open>(0, 0)\<close> is visited and farther than 3 from the
  entrance \<open>(25, 0)\<close> and from the exit \<open>(25, 49)\<close>, so the point returned is
  \<open>(4 x + 2, 2, 4 z + 2)\<close> for a visited in-bounds cell \<open>(x, z)\<close> farther than 3 from both.
\<close>

theorem getRandomWalkablePosition_exclusion_witness:
  "\<exists>s' x z. generateMaze sin newMazeGenerator = Some s' \<and>
        isValidCell x z \<and> visitedAt (grid s') x z \<and>
        3 < \<bar>x - 25\<bar> + \<bar>z - 0\<bar> \<and> 3 < \<bar>x - 25\<bar> + \<bar>z - 49\<bar> \<and>
        fst (getRandomWalkablePosition sin 3 s') =
          Some \<lparr>px = 4 * of_int x + 2, py = 2, pz = 4 * of_int z + 2\<rparr>"
proof -
  from built_maze [of sin newMazeGenerator] obtain s' where s': "generateMaze sin newMazeGenerator = Some s'"
    "\<And>x y. isValidCell x y \<Longrightarrow> visitedAt (grid s') x y"
    "entrance s' = (25, 0)" "exit s' = (25, 49)"
    "entranceWorldPosition s' = entranceWorldPosition newMazeGenerator" by blast
  have v: "isValidCell 0 0" by (simp add: isValidCell_def MAZE_SIZE_def)
  have y: "py (entranceWorldPosition s') + 1 = 2" by (simp add: s'(5) newMazeGenerator_def)
  have e: "\<exists>x z. isValidCell x z \<and> visitedAt (grid s') x z \<and>
        (3::real) < of_int (\<bar>x - fst (entrance s')\<bar> + \<bar>z - snd (entrance s')\<bar>) \<and>
        (3::real) < of_int (\<bar>x - fst (exit s')\<bar> + \<bar>z - snd (exit s')\<bar>)"
    using s'(2) [OF v] v by (intro exI [of _ 0]) (simp add: s'(3,4))
  have "(0::real) < 3" by simp
  from getRandomWalkablePosition_exclusion [OF this, of s' sin, THEN conjunct1] e
  obtain x z where xz: "isValidCell x z" "visitedAt (grid s') x z"
    "(3::real) < of_int (\<bar>x - fst (entrance s')\<bar> + \<bar>z - snd (entrance s')\<bar>)"
    "(3::real) < of_int (\<bar>x - fst (exit s')\<bar> + \<bar>z - snd (exit s')\<bar>)"
    "fst (getRandomWalkablePosition sin 3 s') =
       Some \<lparr>px = 4 * of_int x + 2, py = py (entranceWorldPosition s') + 1, pz = 4 * of_int z + 2\<rparr>"
    by blast
  from xz(3,4) have d: "3 < \<bar>x - 25\<bar> + \<bar>z - 0\<bar>" "3 < \<bar>x - 25\<bar> + \<bar>z - 49\<bar>"
    unfolding s'(3,4) fst_conv snd_conv by linarith+
  show ?thesis
    using s'(1) xz(1,2) d xz(5) unfolding y
    by (intro exI [of _ s'] exI [of _ x] exI [of _ z] conjI)
qed

text \<open>
  C9 as stated fails on the built maze: \<open>getEntrance\<close> changes the cached entrance position (from
  \<open>x = 0\<close> to \<open>x = 102\<close>), and \<open>getRandomWalkablePosition(3)\<close> advances the seed counter.
\<close>

theorem query_purity_counterexample:
  "entranceWorldPosition (stateAfter sin GetEntrance (the (generateMaze sin newMazeGenerator)))
     \<noteq> entranceWorldPosition (the (generateMaze sin newMazeGenerator)) \<and>
   currentSeed (stateAfter sin (GetRandomWalkablePosition 3) (the (generateMaze sin newMazeGenerator)))
     \<noteq> currentSeed (the (generateMaze sin newMazeGenerator))"
proof -
  from built_maze [of sin newMazeGenerator] obtain s' where s': "generateMaze sin newMazeGenerator = Some s'"
    "\<And>x y. isValidCell x y \<Longrightarrow> visitedAt (grid s') x y"
    "entrance s' = (25, 0)" "entranceWorldPosition s' = entranceWorldPosition newMazeGenerator"
    by blast
  have "px (entranceWorldPosition (snd (getEntrance s'))) = 102"
    by (simp add: getEntrance_def Let_def s'(3) PATH_WIDTH_def)
  moreover have "px (entranceWorldPosition s') = 0" by (simp add: s'(4) newMazeGenerator_def)
  ultimately have a: "entranceWorldPosition (stateAfter sin GetEntrance s') \<noteq> entranceWorldPosition s'"
    by auto
  have v: "isValidCell 0 0" by (simp add: isValidCell_def MAZE_SIZE_def)
  then have "(0, 0) \<in> set (getAllWalkableCells s')"
    using s'(2) [OF v] by (simp add: set_getAllWalkableCells isWalkableCell_visitedAt)
  then have "getAllWalkableCells s' \<noteq> []" by auto
  from getRandomWalkablePosition_pick [OF this, of 3 sin]
  have "snd (getRandomWalkablePosition sin 3 s') = s'\<lparr>currentSeed := currentSeed s' + 1\<rparr>" by auto
  then have b: "currentSeed (stateAfter sin (GetRandomWalkablePosition 3) s') \<noteq> currentSeed s'" by simp
  from a b show ?thesis by (simp add: s'(1))
qed

text \<open>
  The effects of three queries on the built maze.
\<close>

theorem query_effects_witness:
  "\<exists>s'. generateMaze sin newMazeGenerator = Some s' \<and>
     grid (stateAfter sin GetEntrance s') = grid s' \<and>
     entranceWorldPosition (stateAfter sin GetEntrance s') = \<lparr>px = 102, py = 1, pz = -5\<rparr> \<and>
     currentSeed (stateAfter sin GetEntrance s') = currentSeed s' \<and>
     stateAfter sin (IsWalkablePath 1 2 3) s' = s' \<and>
     currentSeed (stateAfter sin (GetRandomWalkablePosition 3) s') = currentSeed s' + 1"
proof -
  from built_maze [of sin newMazeGenerator] obtain s' where s': "generateMaze sin newMazeGenerator = Some s'"
    "\<And>x y. isValidCell x y \<Longrightarrow> visitedAt (grid s') x y"
    "entrance s' = (25, 0)" by blast
  have v: "isValidCell 0 0" by (simp add: isValidCell_def MAZE_SIZE_def)
  then have "(0, 0) \<in> set (getAllWalkableCells s')"
    using s'(2) [OF v] by (simp add: set_getAllWalkableCells isWalkableCell_visitedAt)
  then have ne: "getAllWalkableCells s' \<noteq> []" by auto
  have "grid (stateAfter sin GetEntrance s') = grid s'"
    "entranceWorldPosition (stateAfter sin GetEntrance s') = \<lparr>px = 102, py = 1, pz = -5\<rparr>"
    "currentSeed (stateAfter sin GetEntrance s') = currentSeed s'"
    using query_effects [of sin GetEntrance s'] by (simp_all add: s'(3) PATH_WIDTH_def PLATFORM_DEPTH_def)
  moreover have "stateAfter sin (IsWalkablePath 1 2 3) s' = s'"
    using query_effects [of sin "IsWalkablePath 1 2 3" s'] by simp
  moreover have "currentSeed (stateAfter sin (GetRandomWalkablePosition 3) s') = currentSeed s' + 1"
    using query_effects [of sin "GetRandomWalkablePosition 3" s'] ne by simp
  ultimately show ?thesis using s'(1) by blast
qed

lemma wallAt_addExtraConnections_iter:
  fixes msin :: "real \<Rightarrow> real" and s :: maze
  assumes wf: "wf_grid (grid s)"
  defines "x \<equiv> \<lfloor>fst (seedRandom msin s) * of_int MAZE_SIZE\<rfloor>"
      and "y \<equiv> \<lfloor>fst (seedRandom msin (snd (seedRandom msin s))) * of_int MAZE_SIZE\<rfloor>"
      and "i \<equiv> \<lfloor>fst (seedRandom msin (snd (seedRandom msin (snd (seedRandom msin s))))) * of_nat (length DIRECTIONS)\<rfloor>"
  shows "wallAt (grid (addExtraConnections_iter msin s)) a b w =
          (wallAt (grid s) a b w \<and>
           \<not> (isValidCell (x + dir_x (DIRECTIONS ! nat i)) (y + dir_y (DIRECTIONS ! nat i)) \<and>
              (a = x \<and> b = y \<and> w = wall (DIRECTIONS ! nat i) \<or>
               a = x + dir_x (DIRECTIONS ! nat i) \<and> b = y + dir_y (DIRECTIONS ! nat i) \<and>
               w = opposite (DIRECTIONS ! nat i))))"
proof -
  note eq = addExtraConnections_iter_eq [OF wf, of msin, folded x_def y_def i_def]
  have pos: "0 \<le> x" "0 \<le> y" using eq(1) by (simp_all add: isValidCell_def)
  show ?thesis
  proof (cases "isValidCell (x + dir_x (DIRECTIONS ! nat i)) (y + dir_y (DIRECTIONS ! nat i))")
    case True
    then have "0 \<le> x + dir_x (DIRECTIONS ! nat i)" "0 \<le> y + dir_y (DIRECTIONS ! nat i)"
      by (simp_all add: isValidCell_def)
    then show ?thesis using True pos by (simp add: eq(4) wallAt_removeWallPair)
  next
    case False
    then show ?thesis by (simp add: eq(4))
  qed
qed

text \<open>
  Claim C7. \<open>addExtraConnections\<close> runs the body of its loop exactly
  \<open>floor (MAZE_SIZE * MAZE_SIZE * 0.1) = 250\<close> times, and the seed counter ends \<open>3 * 250\<close> higher: each
  pass draws \<open>x\<close>, \<open>y\<close> and the direction index \<open>i\<close> from the seeded stream. One pass, on a
  well-formed grid: \<open>(x, y)\<close> is in bounds and \<open>i\<close> is one of the four directions; a wall flag is
  present afterwards exactly when it was present before and is not one of the pair between
  \<open>(x, y)\<close> and its neighbour in direction \<open>i\<close> with that neighbour in bounds (whatever the visited
  flags are, and with no effect on flags already absent); no visited flag changes, in one pass or
  in the whole loop.
\<close>

theorem addExtraConnections_iterations:
  fixes msin :: "real \<Rightarrow> real" and s :: maze
  assumes wf: "wf_grid (grid s)"
  defines "x \<equiv> \<lfloor>fst (seedRandom msin s) * of_int MAZE_SIZE\<rfloor>"
      and "y \<equiv> \<lfloor>fst (seedRandom msin (snd (seedRandom msin s))) * of_int MAZE_SIZE\<rfloor>"
      and "i \<equiv> \<lfloor>fst (seedRandom msin (snd (seedRandom msin (snd (seedRandom msin s))))) * of_nat (length DIRECTIONS)\<rfloor>"
  shows "connectionsToAdd = \<lfloor>real_of_int (MAZE_SIZE * MAZE_SIZE) * (1 / 10)\<rfloor> \<and>
         connectionsToAdd = 250 \<and>
         addExtraConnections msin s = (addExtraConnections_iter msin ^^ 250) s \<and>
         currentSeed (addExtraConnections msin s) = currentSeed s + 3 * 250 \<and>
         (\<forall>a b. visitedAt (grid (addExtraConnections msin s)) a b = visitedAt (grid s) a b) \<and>
         isValidCell x y \<and> 0 \<le> i \<and> i < 4 \<and>
         wf_grid (grid (addExtraConnections_iter msin s)) \<and>
         currentSeed (addExtraConnections_iter msin s) = currentSeed s + 3 \<and>
         (\<forall>a b w. wallAt (grid (addExtraConnections_iter msin s)) a b w =
            (wallAt (grid s) a b w \<and>
             \<not> (isValidCell (x + dir_x (DIRECTIONS ! nat i)) (y + dir_y (DIRECTIONS ! nat i)) \<and>
                (a = x \<and> b = y \<and> w = wall (DIRECTIONS ! nat i) \<or>
                 a = x + dir_x (DIRECTIONS ! nat i) \<and> b = y + dir_y (DIRECTIONS ! nat i) \<and>
                 w = opposite (DIRECTIONS ! nat i))))) \<and>
         (\<forall>a b. visitedAt (grid (addExtraConnections_iter msin s)) a b = visitedAt (grid s) a b)"
proof -
  note eq = addExtraConnections_iter_eq [OF wf, of msin, folded x_def y_def i_def]
  note p1 = addExtraConnections_iter_props [OF wf, of msin]
  note pw = addExtraConnections_pow_props [OF wf, where msin = msin and n = 250, folded addExtraConnections_funpow]
  note w = wallAt_addExtraConnections_iter [OF wf, of msin, folded x_def y_def i_def]
  have c1: "connectionsToAdd = \<lfloor>real_of_int (MAZE_SIZE * MAZE_SIZE) * (1 / 10)\<rfloor>"
    by (rule connectionsToAdd_def)
  have c4: "currentSeed (addExtraConnections msin s) = currentSeed s + 3 * 250" using pw by simp
  have c5: "\<forall>a b. visitedAt (grid (addExtraConnections msin s)) a b = visitedAt (grid s) a b"
    using pw by blast
  have c11: "\<forall>a b w. wallAt (grid (addExtraConnections_iter msin s)) a b w =
            (wallAt (grid s) a b w \<and>
             \<not> (isValidCell (x + dir_x (DIRECTIONS ! nat i)) (y + dir_y (DIRECTIONS ! nat i)) \<and>
                (a = x \<and> b = y \<and> w = wall (DIRECTIONS ! nat i) \<or>
                 a = x + dir_x (DIRECTIONS ! nat i) \<and> b = y + dir_y (DIRECTIONS ! nat i) \<and>
                 w = opposite (DIRECTIONS ! nat i))))"
    by (intro allI) (rule w)
  have c12: "\<forall>a b. visitedAt (grid (addExtraConnections_iter msin s)) a b = visitedAt (grid s) a b"
    by (intro allI) (rule p1(6))
  show ?thesis
    by (intro conjI) (rule c1 connectionsToAdd_250 addExtraConnections_funpow c4 c5 eq(1) eq(2) eq(3) p1(1) p1(2) c11 c12)+
qed

text \<open>
  C7 on the constructed generator: from seed 12345 the loop ends at 12345 + 750 and one pass at
  12345 + 3; the cell \<open>(3, 4)\<close> stays unvisited.
\<close>

theorem addExtraConnections_iterations_witness:
  "addExtraConnections sin newMazeGenerator = (addExtraConnections_iter sin ^^ 250) newMazeGenerator \<and>
   currentSeed (addExtraConnections sin newMazeGenerator) = 13095 \<and>
   \<not> visitedAt (grid (addExtraConnections sin newMazeGenerator)) 3 4 \<and>
   currentSeed (addExtraConnections_iter sin newMazeGenerator) = 12348"
proof -
  have wf: "wf_grid (grid newMazeGenerator)" by (simp add: newMazeGenerator_def)
  have v: "\<not> visitedAt (grid newMazeGenerator) 3 4" by (simp add: newMazeGenerator_def)
  have c: "currentSeed newMazeGenerator = 12345" by (simp add: newMazeGenerator_def FIXED_SEED_def)
  note t = addExtraConnections_iterations [OF wf, of sin]
  have a1: "addExtraConnections sin newMazeGenerator = (addExtraConnections_iter sin ^^ 250) newMazeGenerator"
    using t by blast
  have a2: "currentSeed (addExtraConnections sin newMazeGenerator) = currentSeed newMazeGenerator + 3 * 250"
    using t by blast
  have a3: "\<forall>a b. visitedAt (grid (addExtraConnections sin newMazeGenerator)) a b =
                 visitedAt (grid newMazeGenerator) a b"
    using t by blast
  have a4: "currentSeed (addExtraConnections_iter sin newMazeGenerator) = currentSeed newMazeGenerator + 3"
    using t by blast
  show ?thesis using a1 a2 a3 a4 v c by simp
qed

text \<open>
  Claim C3 fails in \<open>addRandomPaths\<close>. On the constructed generator, \<open>addRandomPaths(1)\<close> with
  \<open>Math.random\<close> returning 0.5, 0.5, 0.9 picks row 24, column 24 and wall 3: the left wall of the cell
  \<open>(24, 24)\<close> is removed, the right wall of its left neighbour \<open>(23, 24)\<close> stays, and the left wall
  of that neighbour is removed instead.
\<close>

theorem addRandomPaths_left_wall_unpaired:
  "\<exists>a b. cellAt (grid (fst (addRandomPaths (\<lambda>k. if k = 2 then 9 / 10 else 1 / 2) 1 (newMazeGenerator, 0)))) 24 24 = Some a \<and>
         cellAt (grid (fst (addRandomPaths (\<lambda>k. if k = 2 then 9 / 10 else 1 / 2) 1 (newMazeGenerator, 0)))) 23 24 = Some b \<and>
         \<not> w_left (walls a) \<and> w_right (walls b) \<and> \<not> w_left (walls b)"
proof -
  let ?r = "\<lambda>k::nat. if k = 2 then 9 / 10 else (1 / 2 :: real)"
  have row: "\<lfloor>?r 0 * of_int (MAZE_SIZE - 1)\<rfloor> = 24" "\<lfloor>?r (0 + 1) * of_int (MAZE_SIZE - 1)\<rfloor> = 24"
    by (simp_all add: MAZE_SIZE_def)
  have w: "\<lfloor>?r (0 + 2) * 4\<rfloor> = 3" by simp
  have v: "isValidCell 24 24" "isValidCell 23 24" by (simp_all add: isValidCell_def MAZE_SIZE_def)
  note c = cellAt_initializeGrid [OF v(1)] cellAt_initializeGrid [OF v(2)]
  have g: "grid (fst (addRandomPaths ?r 1 (newMazeGenerator, 0))) =
           removeIfPresent (updCell initializeGrid 24 24 (removeWall Left)) 23 24 Left"
    unfolding addRandomPaths_def One_nat_def addRandomPaths_loop.simps addRandomPaths_iter_def Let_def
      fst_conv snd_conv row w
    by (simp add: newMazeGenerator_def c MAZE_SIZE_def)
  have c23: "cellAt (updCell initializeGrid 24 24 (removeWall Left)) 23 24 =
             Some \<lparr>cell_x = 23, cell_y = 24, visited = False,
                   walls = \<lparr>w_top = True, w_right = True, w_bottom = True, w_left = True\<rparr>\<rparr>"
    by (simp add: cellAt_updCell c)
  have g': "grid (fst (addRandomPaths ?r 1 (newMazeGenerator, 0))) =
           updCell (updCell initializeGrid 24 24 (removeWall Left)) 23 24 (removeWall Left)"
    unfolding g removeIfPresent_def c23 by simp
  show ?thesis unfolding g' by (simp add: cellAt_updCell c)
qed

lemma createPath_loop_stop:
  "x = fst (exit s) \<Longrightarrow> y = snd (exit s) \<Longrightarrow> createPath_loop s x y = s"
  by (subst createPath_loop.simps) simp

lemma createPath_loop_move:
  assumes wf: "wf_grid (grid s)" and v: "isValidCell x y"
    and e: "isValidCell (fst (exit s)) (snd (exit s))"
  shows "y < snd (exit s) \<Longrightarrow> createPath_loop s x y =
           createPath_loop (s\<lparr>grid := removeWallPair (updCell (grid s) x y markVisited) x y Bottom x (y + 1) Top\<rparr>) x (y + 1)"
    and "snd (exit s) < y \<Longrightarrow> createPath_loop s x y =
           createPath_loop (s\<lparr>grid := removeWallPair (updCell (grid s) x y markVisited) x y Top x (y - 1) Bottom\<rparr>) x (y - 1)"
    and "y = snd (exit s) \<Longrightarrow> x < fst (exit s) \<Longrightarrow> createPath_loop s x y =
           createPath_loop (s\<lparr>grid := removeWallPair (updCell (grid s) x y markVisited) x y Right (x + 1) y Left\<rparr>) (x + 1) y"
    and "y = snd (exit s) \<Longrightarrow> fst (exit s) < x \<Longrightarrow> createPath_loop s x y =
           createPath_loop (s\<lparr>grid := removeWallPair (updCell (grid s) x y markVisited) x y Left (x - 1) y Right\<rparr>) (x - 1) y"
proof -
  have wf1: "wf_grid (updCell (grid s) x y markVisited)" using wf by simp
  have c: "validCellAt (grid s) x y \<noteq> None"
    using wf_cellAt [OF wf, of x y] v by (simp add: validCellAt_wf [OF wf])
  have c1: "isValidCell a b \<Longrightarrow> validCellAt (updCell (grid s) x y markVisited) a b \<noteq> None" for a b
    using wf_cellAt [OF wf1, of a b] by (simp add: validCellAt_wf [OF wf1])
  {
    assume a: "y < snd (exit s)"
    then have "isValidCell x (y + 1)" using v e by (simp add: isValidCell_def)
    from c1 [OF this] c a
    show "createPath_loop s x y =
           createPath_loop (s\<lparr>grid := removeWallPair (updCell (grid s) x y markVisited) x y Bottom x (y + 1) Top\<rparr>) x (y + 1)"
      by (subst createPath_loop.simps) (auto simp: Let_def)
  }
  {
    assume a: "snd (exit s) < y"
    then have "isValidCell x (y - 1)" using v e by (simp add: isValidCell_def)
    from c1 [OF this] c a
    show "createPath_loop s x y =
           createPath_loop (s\<lparr>grid := removeWallPair (updCell (grid s) x y markVisited) x y Top x (y - 1) Bottom\<rparr>) x (y - 1)"
      by (subst createPath_loop.simps) (auto simp: Let_def)
  }
  {
    assume a: "y = snd (exit s)" "x < fst (exit s)"
    then have "isValidCell (x + 1) y" using v e by (simp add: isValidCell_def)
    from c1 [OF this] c a
    show "createPath_loop s x y =
           createPath_loop (s\<lparr>grid := removeWallPair (updCell (grid s) x y markVisited) x y Right (x + 1) y Left\<rparr>) (x + 1) y"
      by (subst createPath_loop.simps) (auto simp: Let_def)
  }
  {
    assume a: "y = snd (exit s)" "fst (exit s) < x"
    then have "isValidCell (x - 1) y" using v e by (simp add: isValidCell_def)
    from c1 [OF this] c a
    show "createPath_loop s x y =
           createPath_loop (s\<lparr>grid := removeWallPair (updCell (grid s) x y markVisited) x y Left (x - 1) y Right\<rparr>) (x - 1) y"
      by (subst createPath_loop.simps) (auto simp: Let_def)
  }
qed

lemma cor_right:
  "x < ex \<Longrightarrow> (spec_corridor (x, ey) (ex, ey) a b \<and> (a, b) \<noteq> (ex, ey)) =
     ((a = x \<and> b = ey) \<or> (spec_corridor (x + 1, ey) (ex, ey) a b \<and> (a, b) \<noteq> (ex, ey)))"
  unfolding spec_corridor_def min_def max_def by (simp; presburger)

lemma cor_left:
  "ex < x \<Longrightarrow> (spec_corridor (x, ey) (ex, ey) a b \<and> (a, b) \<noteq> (ex, ey)) =
     ((a = x \<and> b = ey) \<or> (spec_corridor (x - 1, ey) (ex, ey) a b \<and> (a, b) \<noteq> (ex, ey)))"
  unfolding spec_corridor_def min_def max_def by (simp; presburger)

lemma cor_down:
  "y < ey \<Longrightarrow> (spec_corridor (x, y) (ex, ey) a b \<and> (a, b) \<noteq> (ex, ey)) =
     ((a = x \<and> b = y) \<or> (spec_corridor (x, y + 1) (ex, ey) a b \<and> (a, b) \<noteq> (ex, ey)))"
  unfolding spec_corridor_def min_def max_def by (simp; presburger)

lemma cor_up:
  "ey < y \<Longrightarrow> (spec_corridor (x, y) (ex, ey) a b \<and> (a, b) \<noteq> (ex, ey)) =
     ((a = x \<and> b = y) \<or> (spec_corridor (x, y - 1) (ex, ey) a b \<and> (a, b) \<noteq> (ex, ey)))"
  unfolding spec_corridor_def min_def max_def by (simp; presburger)

lemma wal_right:
  "x < ex \<Longrightarrow> spec_corridorWall (x, ey) (ex, ey) a b v =
     ((a = x \<and> b = ey \<and> v = Right) \<or> (a = x + 1 \<and> b = ey \<and> v = Left) \<or>
      spec_corridorWall (x + 1, ey) (ex, ey) a b v)"
  unfolding spec_corridorWall_def min_def max_def by (cases v; simp; presburger)

lemma wal_left:
  "ex < x \<Longrightarrow> spec_corridorWall (x, ey) (ex, ey) a b v =
     ((a = x \<and> b = ey \<and> v = Left) \<or> (a = x - 1 \<and> b = ey \<and> v = Right) \<or>
      spec_corridorWall (x - 1, ey) (ex, ey) a b v)"
  unfolding spec_corridorWall_def min_def max_def by (cases v; simp; presburger)

lemma wal_down:
  "y < ey \<Longrightarrow> spec_corridorWall (x, y) (ex, ey) a b v =
     ((a = x \<and> b = y \<and> v = Bottom) \<or> (a = x \<and> b = y + 1 \<and> v = Top) \<or>
      spec_corridorWall (x, y + 1) (ex, ey) a b v)"
  unfolding spec_corridorWall_def min_def max_def by (cases v; simp; presburger)

lemma wal_up:
  "ey < y \<Longrightarrow> spec_corridorWall (x, y) (ex, ey) a b v =
     ((a = x \<and> b = y \<and> v = Top) \<or> (a = x \<and> b = y - 1 \<and> v = Bottom) \<or>
      spec_corridorWall (x, y - 1) (ex, ey) a b v)"
  unfolding spec_corridorWall_def min_def max_def by (cases v; simp; presburger)

lemma carve_step_effect:
  assumes "isValidCell x y" "isValidCell nx ny" "wf_grid g"
  shows "visitedAt (removeWallPair (updCell g x y markVisited) x y w nx ny w') a b =
           (visitedAt g a b \<or> (a = x \<and> b = y))"
    and "wallAt (removeWallPair (updCell g x y markVisited) x y w nx ny w') a b v =
           (wallAt g a b v \<and> \<not> (a = x \<and> b = y \<and> v = w) \<and> \<not> (a = nx \<and> b = ny \<and> v = w'))"
proof -
  have pos: "0 \<le> x" "0 \<le> y" "0 \<le> nx" "0 \<le> ny" using assms(1,2) by (simp_all add: isValidCell_def)
  have c: "cellAt g x y \<noteq> None" using wf_cellAt [OF assms(3)] assms(1) by simp
  show "visitedAt (removeWallPair (updCell g x y markVisited) x y w nx ny w') a b =
           (visitedAt g a b \<or> (a = x \<and> b = y))"
    using pos c by (simp add: visitedAt_removeWallPair visitedAt_markVisited)
  show "wallAt (removeWallPair (updCell g x y markVisited) x y w nx ny w') a b v =
           (wallAt g a b v \<and> \<not> (a = x \<and> b = y \<and> v = w) \<and> \<not> (a = nx \<and> b = ny \<and> v = w'))"
    using pos by (simp add: wallAt_removeWallPair wallAt_markVisited)
qed

lemma corridor_post_stop:
  assumes "wf_grid (grid s)" "x = fst (exit s)" "y = snd (exit s)"
  shows "corridor_post s x y (createPath_loop s x y)"
proof -
  have xy: "(x, y) = exit s" using assms(2,3) by simp
  have nc: "(spec_corridor (exit s) (exit s) a b \<and> (a, b) \<noteq> exit s) = False" for a b
    by (auto simp: spec_corridor_def prod_eq_iff)
  have nw: "spec_corridorWall (exit s) (exit s) a b w = False" for a b w
    by (auto simp: spec_corridorWall_def)
  show ?thesis
    unfolding corridor_post_def createPath_loop_stop [OF assms(2,3)] xy nc nw
    using assms(1) by simp
qed

lemma corridor_post_compose:
  assumes post: "corridor_post (s\<lparr>grid := removeWallPair (updCell (grid s) x y markVisited) x y w nx ny w'\<rparr>) nx ny r"
    and v: "isValidCell x y" "isValidCell nx ny" and wf: "wf_grid (grid s)"
    and cor: "\<And>a b. (spec_corridor (x, y) (exit s) a b \<and> (a, b) \<noteq> exit s) =
                 ((a = x \<and> b = y) \<or> (spec_corridor (nx, ny) (exit s) a b \<and> (a, b) \<noteq> exit s))"
    and wal: "\<And>a b v. spec_corridorWall (x, y) (exit s) a b v =
                 ((a = x \<and> b = y \<and> v = w) \<or> (a = nx \<and> b = ny \<and> v = w') \<or>
                  spec_corridorWall (nx, ny) (exit s) a b v)"
  shows "corridor_post s x y r"
proof -
  note eff = carve_step_effect [OF v wf]
  from post have p: "wf_grid (grid r)" "exit r = exit s" "entrance r = entrance s"
    "entranceWorldPosition r = entranceWorldPosition s" "currentSeed r = currentSeed s"
    and pv: "\<And>a b. visitedAt (grid r) a b =
        ((visitedAt (grid s) a b \<or> (a = x \<and> b = y)) \<or>
         (spec_corridor (nx, ny) (exit s) a b \<and> (a, b) \<noteq> exit s))"
    and pw: "\<And>a b v. wallAt (grid r) a b v =
        ((wallAt (grid s) a b v \<and> \<not> (a = x \<and> b = y \<and> v = w) \<and> \<not> (a = nx \<and> b = ny \<and> v = w')) \<and>
         \<not> spec_corridorWall (nx, ny) (exit s) a b v)"
    unfolding corridor_post_def by (simp_all add: eff)
  have "visitedAt (grid r) a b =
        (visitedAt (grid s) a b \<or> (spec_corridor (x, y) (exit s) a b \<and> (a, b) \<noteq> exit s))" for a b
    unfolding pv cor by blast
  moreover have "wallAt (grid r) a b v = (wallAt (grid s) a b v \<and> \<not> spec_corridorWall (x, y) (exit s) a b v)"
    for a b v unfolding pw wal by blast
  ultimately show ?thesis using p by (simp add: corridor_post_def)
qed

lemma corridor_horizontal:
  assumes "wf_grid (grid s)" "isValidCell x y" "isValidCell (fst (exit s)) (snd (exit s))"
    "y = snd (exit s)"
  shows "corridor_post s x y (createPath_loop s x y)"
  using assms
proof (induction "nat \<bar>fst (exit s) - x\<bar>" arbitrary: s x)
  case 0
  then show ?case by (intro corridor_post_stop) simp_all
next
  case (Suc n)
  note move = createPath_loop_move [OF Suc.prems(1,2,3)]
  consider "x < fst (exit s)" | "fst (exit s) < x" using Suc.hyps(2) by linarith
  then show ?case
  proof cases
    case 1
    let ?s1 = "s\<lparr>grid := removeWallPair (updCell (grid s) x y markVisited) x y Right (x + 1) y Left\<rparr>"
    have v1: "isValidCell (x + 1) y" using 1 Suc.prems by (simp add: isValidCell_def)
    have "corridor_post ?s1 (x + 1) y (createPath_loop ?s1 (x + 1) y)"
      using Suc.hyps(2) 1 Suc.prems v1 by (intro Suc.hyps(1)) simp_all
    then have "corridor_post s x y (createPath_loop ?s1 (x + 1) y)"
    proof (rule corridor_post_compose [OF _ Suc.prems(2) v1 Suc.prems(1)])
      show "(spec_corridor (x, y) (exit s) a b \<and> (a, b) \<noteq> exit s) =
            ((a = x \<and> b = y) \<or> (spec_corridor (x + 1, y) (exit s) a b \<and> (a, b) \<noteq> exit s))" for a b
        using cor_right [of x "fst (exit s)" "snd (exit s)" a b] 1 Suc.prems(4) by simp
      show "spec_corridorWall (x, y) (exit s) a b v =
            ((a = x \<and> b = y \<and> v = Right) \<or> (a = x + 1 \<and> b = y \<and> v = Left) \<or>
             spec_corridorWall (x + 1, y) (exit s) a b v)" for a b v
        using wal_right [of x "fst (exit s)" "snd (exit s)" a b v] 1 Suc.prems(4) by simp
    qed
    then show ?thesis using move(3) [OF Suc.prems(4) 1] by simp
  next
    case 2
    let ?s1 = "s\<lparr>grid := removeWallPair (updCell (grid s) x y markVisited) x y Left (x - 1) y Right\<rparr>"
    have v1: "isValidCell (x - 1) y" using 2 Suc.prems by (simp add: isValidCell_def)
    have "corridor_post ?s1 (x - 1) y (createPath_loop ?s1 (x - 1) y)"
      using Suc.hyps(2) 2 Suc.prems v1 by (intro Suc.hyps(1)) simp_all
    then have "corridor_post s x y (createPath_loop ?s1 (x - 1) y)"
    proof (rule corridor_post_compose [OF _ Suc.prems(2) v1 Suc.prems(1)])
      show "(spec_corridor (x, y) (exit s) a b \<and> (a, b) \<noteq> exit s) =
            ((a = x \<and> b = y) \<or> (spec_corridor (x - 1, y) (exit s) a b \<and> (a, b) \<noteq> exit s))" for a b
        using cor_left [of "fst (exit s)" x "snd (exit s)" a b] 2 Suc.prems(4) by simp
      show "spec_corridorWall (x, y) (exit s) a b v =
            ((a = x \<and> b = y \<and> v = Left) \<or> (a = x - 1 \<and> b = y \<and> v = Right) \<or>
             spec_corridorWall (x - 1, y) (exit s) a b v)" for a b v
        using wal_left [of "fst (exit s)" x "snd (exit s)" a b v] 2 Suc.prems(4) by simp
    qed
    then show ?thesis using move(4) [OF Suc.prems(4) 2] by simp
  qed
qed

lemma corridor_vertical:
  assumes "wf_grid (grid s)" "isValidCell x y" "isValidCell (fst (exit s)) (snd (exit s))"
  shows "corridor_post s x y (createPath_loop s x y)"
  using assms
proof (induction "nat \<bar>snd (exit s) - y\<bar>" arbitrary: s y)
  case 0
  then show ?case by (intro corridor_horizontal) simp_all
next
  case (Suc n)
  note move = createPath_loop_move [OF Suc.prems(1,2,3)]
  consider "y < snd (exit s)" | "snd (exit s) < y" using Suc.hyps(2) by linarith
  then show ?case
  proof cases
    case 1
    let ?s1 = "s\<lparr>grid := removeWallPair (updCell (grid s) x y markVisited) x y Bottom x (y + 1) Top\<rparr>"
    have v1: "isValidCell x (y + 1)" using 1 Suc.prems by (simp add: isValidCell_def)
    have "corridor_post ?s1 x (y + 1) (createPath_loop ?s1 x (y + 1))"
      using Suc.hyps(2) 1 Suc.prems v1 by (intro Suc.hyps(1)) simp_all
    then have "corridor_post s x y (createPath_loop ?s1 x (y + 1))"
    proof (rule corridor_post_compose [OF _ Suc.prems(2) v1 Suc.prems(1)])
      show "(spec_corridor (x, y) (exit s) a b \<and> (a, b) \<noteq> exit s) =
            ((a = x \<and> b = y) \<or> (spec_corridor (x, y + 1) (exit s) a b \<and> (a, b) \<noteq> exit s))" for a b
        using cor_down [of y "snd (exit s)" x "fst (exit s)" a b] 1 by simp
      show "spec_corridorWall (x, y) (exit s) a b v =
            ((a = x \<and> b = y \<and> v = Bottom) \<or> (a = x \<and> b = y + 1 \<and> v = Top) \<or>
             spec_corridorWall (x, y + 1) (exit s) a b v)" for a b v
        using wal_down [of y "snd (exit s)" x "fst (exit s)" a b v] 1 by simp
    qed
    then show ?thesis using move(1) [OF 1] by simp
  next
    case 2
    let ?s1 = "s\<lparr>grid := removeWallPair (updCell (grid s) x y markVisited) x y Top x (y - 1) Bottom\<rparr>"
    have v1: "isValidCell x (y - 1)" using 2 Suc.prems by (simp add: isValidCell_def)
    have "corridor_post ?s1 x (y - 1) (createPath_loop ?s1 x (y - 1))"
      using Suc.hyps(2) 2 Suc.prems v1 by (intro Suc.hyps(1)) simp_all
    then have "corridor_post s x y (createPath_loop ?s1 x (y - 1))"
    proof (rule corridor_post_compose [OF _ Suc.prems(2) v1 Suc.prems(1)])
      show "(spec_corridor (x, y) (exit s) a b \<and> (a, b) \<noteq> exit s) =
            ((a = x \<and> b = y) \<or> (spec_corridor (x, y - 1) (exit s) a b \<and> (a, b) \<noteq> exit s))" for a b
        using cor_up [of "snd (exit s)" y x "fst (exit s)" a b] 2 by simp
      show "spec_corridorWall (x, y) (exit s) a b v =
            ((a = x \<and> b = y \<and> v = Top) \<or> (a = x \<and> b = y - 1 \<and> v = Bottom) \<or>
             spec_corridorWall (x, y - 1) (exit s) a b v)" for a b v
        using wal_up [of "snd (exit s)" y x "fst (exit s)" a b v] 2 by simp
    qed
    then show ?thesis using move(2) [OF 2] by simp
  qed
qed

lemma closest_inv_None:
  "closest_inv s P None = (\<forall>p. p \<in> P \<longrightarrow> \<not> visitedAt (grid s) (fst p) (snd p))"
  by (simp add: closest_inv_def)

lemma closest_inv_Some:
  "closest_inv s P (Some (cx, cy, d)) =
     ((cx, cy) \<in> P \<and> visitedAt (grid s) cx cy \<and> d = manhattan (cx, cy) (exit s) \<and>
      (\<forall>p. p \<in> P \<and> visitedAt (grid s) (fst p) (snd p) \<longrightarrow> closerThan s (cx, cy) p))"
  by (simp add: closest_inv_def)

lemma createPathToExit_post:
  assumes wf: "wf_grid (grid s)" and v: "isValidCell x y"
    and e: "isValidCell (fst (exit s)) (snd (exit s))"
  shows "wf_grid (grid (createPathToExit s x y))"
    and "exit (createPathToExit s x y) = exit s"
    and "visitedAt (grid (createPathToExit s x y)) a b =
           (visitedAt (grid s) a b \<or> spec_corridor (x, y) (exit s) a b)"
    and "wallAt (grid (createPathToExit s x y)) a b w =
           (wallAt (grid s) a b w \<and> \<not> spec_corridorWall (x, y) (exit s) a b w)"
proof -
  define r where "r = createPath_loop s x y"
  have post: "corridor_post s x y r" unfolding r_def by (rule corridor_vertical [OF wf v e])
  then have p: "wf_grid (grid r)" "exit r = exit s"
    and pv: "\<And>a b. visitedAt (grid r) a b =
        (visitedAt (grid s) a b \<or> (spec_corridor (x, y) (exit s) a b \<and> (a, b) \<noteq> exit s))"
    and pw: "\<And>a b w. wallAt (grid r) a b w = (wallAt (grid s) a b w \<and> \<not> spec_corridorWall (x, y) (exit s) a b w)"
    unfolding corridor_post_def by blast+
  from wf_cellAt_Some [OF p(1), of "fst (exit s)" "snd (exit s)"] e
  obtain c where c: "cellAt (grid r) (fst (exit s)) (snd (exit s)) = Some c" by blast
  have eq: "createPathToExit s x y = r\<lparr>grid := updCell (grid r) (fst (exit s)) (snd (exit s)) markVisited\<rparr>"
    using c e by (simp add: createPathToExit_def r_def [symmetric] Let_def p(2) validCellAt_def)
  have pos: "0 \<le> fst (exit s)" "0 \<le> snd (exit s)" using e by (simp_all add: isValidCell_def)
  have on: "spec_corridor (x, y) (exit s) (fst (exit s)) (snd (exit s))"
    by (simp add: spec_corridor_def)
  show "wf_grid (grid (createPathToExit s x y))" using p(1) by (simp add: eq)
  show "exit (createPathToExit s x y) = exit s" by (simp add: eq p(2))
  show "visitedAt (grid (createPathToExit s x y)) a b =
           (visitedAt (grid s) a b \<or> spec_corridor (x, y) (exit s) a b)"
    using pos c on by (auto simp: eq visitedAt_markVisited pv prod_eq_iff)
  show "wallAt (grid (createPathToExit s x y)) a b w =
           (wallAt (grid s) a b w \<and> \<not> spec_corridorWall (x, y) (exit s) a b w)"
    using pos by (simp add: eq wallAt_markVisited pw)
qed

lemma closer_inv:
  assumes wf: "wf_grid (grid s)" and v: "isValidCell (fst q) (snd q)"
    and inv: "closest_inv s P acc"
    and lt: "\<And>p. p \<in> P \<Longrightarrow> rowMajorLess p q"
  shows "closest_inv s (insert q P) (closer s q acc)"
proof -
  from wf_cellAt_Some [OF wf v] obtain c where c: "cellAt (grid s) (fst q) (snd q) = Some c" by blast
  then have vc: "validCellAt (grid s) (fst q) (snd q) = Some c" using v by (simp add: validCellAt_def)
  have vis: "visitedAt (grid s) (fst q) (snd q) = visited c" by (simp add: visitedAt_def c)
  have d: "\<bar>fst q - fst (exit s)\<bar> + \<bar>snd q - snd (exit s)\<bar> = manhattan q (exit s)"
    by (simp add: manhattan_def)
  have self: "closerThan s q q" by (simp add: closerThan_def)
  show ?thesis
  proof (cases acc)
    case None
    from inv have nv: "\<And>p. p \<in> P \<Longrightarrow> \<not> visitedAt (grid s) (fst p) (snd p)"
      unfolding None closest_inv_None by blast
    show ?thesis
    proof (cases "visited c")
      case False
      then have "closer s q acc = None" by (simp add: closer_def vc None)
      moreover have "closest_inv s (insert q P) None"
        unfolding closest_inv_None using nv False vis by blast
      ultimately show ?thesis by simp
    next
      case True
      then have "closer s q acc = Some (fst q, snd q, manhattan q (exit s))"
        by (simp add: closer_def vc d Let_def None)
      moreover have "closest_inv s (insert q P) (Some (fst q, snd q, manhattan q (exit s)))"
        unfolding closest_inv_Some using nv True vis self by auto
      ultimately show ?thesis by simp
    qed
  next
    case (Some b)
    obtain cx cy cd where b: "b = (cx, cy, cd)" by (cases b)
    from inv have i: "(cx, cy) \<in> P" "visitedAt (grid s) cx cy" "cd = manhattan (cx, cy) (exit s)"
      and best: "\<And>p. p \<in> P \<Longrightarrow> visitedAt (grid s) (fst p) (snd p) \<Longrightarrow> closerThan s (cx, cy) p"
      unfolding Some b closest_inv_Some by blast+
    show ?thesis
    proof (cases "visited c \<and> manhattan q (exit s) < cd")
      case True
      then have "closer s q acc = Some (fst q, snd q, manhattan q (exit s))"
        by (simp add: closer_def vc d Let_def Some b)
      moreover have "closerThan s q p" if "p \<in> P" "visitedAt (grid s) (fst p) (snd p)" for p
        using best [OF that] True i(3) by (simp add: closerThan_def)
      then have "closest_inv s (insert q P) (Some (fst q, snd q, manhattan q (exit s)))"
        unfolding closest_inv_Some using True vis self by auto
      ultimately show ?thesis by simp
    next
      case False
      then have "closer s q acc = Some (cx, cy, cd)"
        by (auto simp: closer_def vc d Let_def Some b)
      moreover have "closerThan s (cx, cy) q" if "visitedAt (grid s) (fst q) (snd q)"
        using that False vis i(3) lt [OF i(1)] by (simp add: closerThan_def)
      then have "closest_inv s (insert q P) (Some (cx, cy, cd))"
        unfolding closest_inv_Some using i best by auto
      ultimately show ?thesis by simp
    qed
  qed
qed

lemma fold_closer_inv:
  assumes wf: "wf_grid (grid s)"
  shows "sorted_wrt rowMajorLess xs \<Longrightarrow> (\<forall>q\<in>set xs. isValidCell (fst q) (snd q)) \<Longrightarrow>
         (\<forall>p\<in>P. \<forall>q\<in>set xs. rowMajorLess p q) \<Longrightarrow> closest_inv s P acc \<Longrightarrow>
         closest_inv s (P \<union> set xs) (fold (closer s) xs acc)"
proof (induction xs arbitrary: P acc)
  case Nil
  then show ?case by simp
next
  case (Cons q xs)
  have 1: "closest_inv s (insert q P) (closer s q acc)"
    using Cons.prems by (intro closer_inv [OF wf]) simp_all
  have 2: "\<forall>p\<in>insert q P. \<forall>r\<in>set xs. rowMajorLess p r" using Cons.prems by simp
  have "closest_inv s (insert q P \<union> set xs) (fold (closer s) xs (closer s q acc))"
    using Cons.prems(1,2) by (intro Cons.IH [OF _ _ 2 1]) simp_all
  then show ?case by simp
qed

lemma sorted_scanOrder: "sorted_wrt rowMajorLess scanOrder"
proof -
  have row: "sorted_wrt rowMajorLess (map (\<lambda>x. (int x, int z)) [0..<n])" for z n
    by (simp add: sorted_wrt_map rowMajorLess_def sorted_wrt_iff_nth_less)
  have "sorted_wrt rowMajorLess (concat (map (\<lambda>z. map (\<lambda>x. (int x, int z)) [0..<n]) [0..<k])) \<and>
        (\<forall>p\<in>set (concat (map (\<lambda>z. map (\<lambda>x. (int x, int z)) [0..<n]) [0..<k])). snd p < int k)" for n k
  proof (induction k)
    case 0
    then show ?case by simp
  next
    case (Suc k)
    let ?xs = "concat (map (\<lambda>z. map (\<lambda>x. (int x, int z)) [0..<n]) [0..<k])"
    let ?r = "map (\<lambda>x. (int x, int k)) [0..<n]"
    have c: "concat (map (\<lambda>z. map (\<lambda>x. (int x, int z)) [0..<n]) [0..<Suc k]) = ?xs @ ?r" by simp
    have cross: "\<forall>p\<in>set ?xs. \<forall>q\<in>set ?r. rowMajorLess p q"
      using Suc by (auto simp: rowMajorLess_def)
    have "sorted_wrt rowMajorLess (?xs @ ?r)"
      unfolding sorted_wrt_append using Suc row cross by blast
    moreover have "\<forall>p\<in>set (?xs @ ?r). snd p < int (Suc k)" using Suc by auto
    ultimately show ?case unfolding c by blast
  qed
  then show ?thesis unfolding scanOrder_def by blast
qed

lemma findClosest_inv:
  assumes wf: "wf_grid (grid s)"
  shows "closest_inv s {(x, y). isValidCell x y} (findClosest s)"
proof -
  have "closest_inv s ({} \<union> set scanOrder) (fold (closer s) scanOrder None)"
    by (rule fold_closer_inv [OF wf sorted_scanOrder]) (auto simp: scanOrder_set closest_inv_def)
  then show ?thesis by (simp add: findClosest_def scanOrder_set)
qed

text \<open>
  Claim C8. When the exit cell is visited, the check at the end of the carving loop leaves the
  state as it is. When it is not (on a well-formed grid with the exit in bounds and some visited
  cell), the check with an empty stack calls \<open>createPathToExit\<close> from a visited cell \<open>(cx, cy)\<close>
  that no visited cell beats in Manhattan distance to the exit, and that precedes in row-major
  order every other visited cell at the same distance. Afterwards the visited cells are the former
  ones and those of the corridor that runs along column \<open>cx\<close> to the exit row and then along the
  exit row to the exit; the wall flags present are the former ones except the pairs between
  consecutive cells of the corridor; and the exit is visited.
\<close>

theorem repairCheck_connects_exit:
  "(hasPathToExit s \<longrightarrow> repairCheck s stack = s) \<and>
   (wf_grid (grid s) \<and> isValidCell (fst (exit s)) (snd (exit s)) \<and> \<not> hasPathToExit s \<and>
    (\<exists>x y. isValidCell x y \<and> visitedAt (grid s) x y) \<longrightarrow>
      (\<exists>cx cy. isValidCell cx cy \<and> visitedAt (grid s) cx cy \<and>
         (\<forall>x y. isValidCell x y \<and> visitedAt (grid s) x y \<longrightarrow>
            manhattan (cx, cy) (exit s) \<le> manhattan (x, y) (exit s) \<and>
            (manhattan (x, y) (exit s) = manhattan (cx, cy) (exit s) \<longrightarrow>
               (x, y) = (cx, cy) \<or> rowMajorLess (cx, cy) (x, y))) \<and>
         repairCheck s [] = createPathToExit s cx cy \<and>
         (\<forall>a b. visitedAt (grid (repairCheck s [])) a b =
            (visitedAt (grid s) a b \<or> spec_corridor (cx, cy) (exit s) a b)) \<and>
         (\<forall>a b w. wallAt (grid (repairCheck s [])) a b w =
            (wallAt (grid s) a b w \<and> \<not> spec_corridorWall (cx, cy) (exit s) a b w)) \<and>
         hasPathToExit (repairCheck s [])))"
proof (intro conjI impI)
  assume "hasPathToExit s"
  then show "repairCheck s stack = s" by (simp add: repairCheck_def)
next
  assume a: "wf_grid (grid s) \<and> isValidCell (fst (exit s)) (snd (exit s)) \<and> \<not> hasPathToExit s \<and>
    (\<exists>x y. isValidCell x y \<and> visitedAt (grid s) x y)"
  then have wf: "wf_grid (grid s)" and e: "isValidCell (fst (exit s)) (snd (exit s))"
    and np: "\<not> hasPathToExit s" by blast+
  from a obtain x0 y0 where v0: "isValidCell x0 y0" "visitedAt (grid s) x0 y0" by blast
  note inv = findClosest_inv [OF wf]
  have "findClosest s \<noteq> None"
  proof
    assume "findClosest s = None"
    with inv have "closest_inv s {(x, y). isValidCell x y} None" by simp
    from this [unfolded closest_inv_None, rule_format, of "(x0, y0)"] v0 show False by simp
  qed
  then obtain cx cy d where f: "findClosest s = Some (cx, cy, d)" by (cases "findClosest s") auto
  from inv have c: "isValidCell cx cy" "visitedAt (grid s) cx cy"
    and best: "\<And>p. isValidCell (fst p) (snd p) \<Longrightarrow> visitedAt (grid s) (fst p) (snd p) \<Longrightarrow>
                 closerThan s (cx, cy) p"
    unfolding f closest_inv_Some by auto
  have r: "repairCheck s [] = createPathToExit s cx cy"
    using np by (simp add: repairCheck_def connectToExit_def f)
  note post = createPathToExit_post [OF wf c(1) e]
  have sel: "\<forall>x y. isValidCell x y \<and> visitedAt (grid s) x y \<longrightarrow>
            manhattan (cx, cy) (exit s) \<le> manhattan (x, y) (exit s) \<and>
            (manhattan (x, y) (exit s) = manhattan (cx, cy) (exit s) \<longrightarrow>
               (x, y) = (cx, cy) \<or> rowMajorLess (cx, cy) (x, y))"
  proof (intro allI impI)
    fix x y assume "isValidCell x y \<and> visitedAt (grid s) x y"
    then have "closerThan s (cx, cy) (x, y)" using best [of "(x, y)"] by simp
    then show "manhattan (cx, cy) (exit s) \<le> manhattan (x, y) (exit s) \<and>
            (manhattan (x, y) (exit s) = manhattan (cx, cy) (exit s) \<longrightarrow>
               (x, y) = (cx, cy) \<or> rowMajorLess (cx, cy) (x, y))"
      unfolding closerThan_def .
  qed
  have vis: "\<forall>a b. visitedAt (grid (repairCheck s [])) a b =
            (visitedAt (grid s) a b \<or> spec_corridor (cx, cy) (exit s) a b)"
    unfolding r by (intro allI) (rule post(3))
  have wal: "\<forall>a b w. wallAt (grid (repairCheck s [])) a b w =
            (wallAt (grid s) a b w \<and> \<not> spec_corridorWall (cx, cy) (exit s) a b w)"
    unfolding r by (intro allI) (rule post(4))
  have "spec_corridor (cx, cy) (exit s) (fst (exit s)) (snd (exit s))"
    by (simp add: spec_corridor_def)
  then have hp: "hasPathToExit (repairCheck s [])"
    using e vis by (simp add: hasPathToExit_visitedAt r post(2))
  show "\<exists>cx cy. isValidCell cx cy \<and> visitedAt (grid s) cx cy \<and>
         (\<forall>x y. isValidCell x y \<and> visitedAt (grid s) x y \<longrightarrow>
            manhattan (cx, cy) (exit s) \<le> manhattan (x, y) (exit s) \<and>
            (manhattan (x, y) (exit s) = manhattan (cx, cy) (exit s) \<longrightarrow>
               (x, y) = (cx, cy) \<or> rowMajorLess (cx, cy) (x, y))) \<and>
         repairCheck s [] = createPathToExit s cx cy \<and>
         (\<forall>a b. visitedAt (grid (repairCheck s [])) a b =
            (visitedAt (grid s) a b \<or> spec_corridor (cx, cy) (exit s) a b)) \<and>
         (\<forall>a b w. wallAt (grid (repairCheck s [])) a b w =
            (wallAt (grid s) a b w \<and> \<not> spec_corridorWall (cx, cy) (exit s) a b w)) \<and>
         hasPathToExit (repairCheck s [])"
    using c sel r vis wal hp by (intro exI [of _ cx] exI [of _ cy] conjI)
qed

text \<open>
  C8 on a grid whose only visited cell is \<open>(22, 46)\<close>, with the exit at \<open>(25, 49)\<close>: the corridor goes
  down column 22 and then right along row 49. On the built maze the check changes nothing.
\<close>

theorem repairCheck_connects_exit_witness:
  "visitedAt (grid (repairCheck (newMazeGenerator\<lparr>exit := (25, 49), grid := updCell initializeGrid 22 46 markVisited\<rparr>) [])) 22 48 \<and>
   visitedAt (grid (repairCheck (newMazeGenerator\<lparr>exit := (25, 49), grid := updCell initializeGrid 22 46 markVisited\<rparr>) [])) 24 49 \<and>
   visitedAt (grid (repairCheck (newMazeGenerator\<lparr>exit := (25, 49), grid := updCell initializeGrid 22 46 markVisited\<rparr>) [])) 25 49 \<and>
   \<not> visitedAt (grid (repairCheck (newMazeGenerator\<lparr>exit := (25, 49), grid := updCell initializeGrid 22 46 markVisited\<rparr>) [])) 23 48 \<and>
   \<not> wallAt (grid (repairCheck (newMazeGenerator\<lparr>exit := (25, 49), grid := updCell initializeGrid 22 46 markVisited\<rparr>) [])) 22 47 Bottom \<and>
   \<not> wallAt (grid (repairCheck (newMazeGenerator\<lparr>exit := (25, 49), grid := updCell initializeGrid 22 46 markVisited\<rparr>) [])) 24 49 Left \<and>
   wallAt (grid (repairCheck (newMazeGenerator\<lparr>exit := (25, 49), grid := updCell initializeGrid 22 46 markVisited\<rparr>) [])) 22 47 Right \<and>
   (\<exists>s'. generateMaze sin newMazeGenerator = Some s' \<and> repairCheck s' [] = s')"
proof -
  define s0 where "s0 = newMazeGenerator\<lparr>exit := (25, 49), grid := updCell initializeGrid 22 46 markVisited\<rparr>"
  have wf: "wf_grid (grid s0)" by (simp add: s0_def)
  have e: "exit s0 = (25, 49)" by (simp add: s0_def)
  have ve: "isValidCell (fst (exit s0)) (snd (exit s0))" by (simp add: e isValidCell_def MAZE_SIZE_def)
  have v: "isValidCell 22 46" "isValidCell 22 47" by (simp_all add: isValidCell_def MAZE_SIZE_def)
  have vis0: "visitedAt (grid s0) a b = (a = 22 \<and> b = 46)" for a b
    using cellAt_initializeGrid [OF v(1)] by (auto simp: s0_def visitedAt_markVisited)
  have "wallAt initializeGrid 22 47 Right"
    by (simp add: wallAt_def cellAt_initializeGrid [OF v(2)])
  then have w0: "wallAt (grid s0) 22 47 Right"
    by (simp add: s0_def wallAt_markVisited)
  have np: "\<not> hasPathToExit s0" by (simp add: hasPathToExit_visitedAt e vis0)
  have "\<exists>x y. isValidCell x y \<and> visitedAt (grid s0) x y" using v(1) vis0 by blast
  with repairCheck_connects_exit [of s0 "[]"] wf ve np
  obtain cx cy where c: "visitedAt (grid s0) cx cy"
    and vis: "\<And>a b. visitedAt (grid (repairCheck s0 [])) a b =
            (visitedAt (grid s0) a b \<or> spec_corridor (cx, cy) (exit s0) a b)"
    and wal: "\<And>a b w. wallAt (grid (repairCheck s0 [])) a b w =
            (wallAt (grid s0) a b w \<and> \<not> spec_corridorWall (cx, cy) (exit s0) a b w)"
    by blast
  from c have cc: "cx = 22" "cy = 46" by (simp_all add: vis0)
  have 1: "visitedAt (grid (repairCheck s0 [])) 22 48" "visitedAt (grid (repairCheck s0 [])) 24 49"
    "visitedAt (grid (repairCheck s0 [])) 25 49" "\<not> visitedAt (grid (repairCheck s0 [])) 23 48"
    unfolding vis cc e by (simp_all add: vis0 spec_corridor_def)
  have 2: "\<not> wallAt (grid (repairCheck s0 [])) 22 47 Bottom" "\<not> wallAt (grid (repairCheck s0 [])) 24 49 Left"
    "wallAt (grid (repairCheck s0 [])) 22 47 Right"
    unfolding wal cc e using w0 by (simp_all add: spec_corridorWall_def)
  from built_maze [of sin newMazeGenerator] obtain s' where s': "generateMaze sin newMazeGenerator = Some s'"
    "\<And>x y. isValidCell x y \<Longrightarrow> visitedAt (grid s') x y" "exit s' = (25, 49)" by blast
  have "isValidCell 25 49" by (simp add: isValidCell_def MAZE_SIZE_def)
  then have "hasPathToExit s'" using s'(2) [of 25 49] by (simp add: hasPathToExit_visitedAt s'(3))
  then have "repairCheck s' [] = s'" using repairCheck_connects_exit [of s' "[]"] by blast
  with s'(1) have 3: "\<exists>s'. generateMaze sin newMazeGenerator = Some s' \<and> repairCheck s' [] = s'" by blast
  show ?thesis using 1 2 3 unfolding s0_def by blast
qed

end
